theory Spec2Isabelle
  imports Complex_Main
begin

section \<open>Data model of bird.go\<close>

text \<open>
  Go's \<open>int\<close> is modelled as \<open>int\<close>: the program only compares and increments indices
  that are bounded by slice lengths, so no arithmetic wraps. \<open>float64\<close> weights are
  modelled as \<open>real\<close>; the program multiplies two weights and hands the products to the
  sampler, nothing else.
\<close>

record QueryItem =
  Item :: int
  Weight :: real

record BirdCfg =
  Depth :: int
  Draws :: int

definition NewBirdCfg :: BirdCfg where
  "NewBirdCfg = \<lparr>Depth = 1, Draws = 1000\<rparr>"

text \<open>
  An error value is built by \<open>errors.New\<close> (a message), by \<open>fmt.Errorf\<close> in \<open>step\<close> (a
  message that carries the item) or by \<open>errors.Wrap\<close> (a cause and a message). The two
  remaining constructors are the errors of the sampler package.
\<close>

datatype error =
    errors_New string
  | fmt_Errorf_no_interaction int
  | errors_Wrap error string
  | EmptyDistribution
  | InvalidWeight

text \<open>
  A run-time panic of Go (an index out of range, \<open>make\<close> with a negative length,
  \<open>Intn\<close> with a non-positive bound) ends the call without a return value.
\<close>

datatype panic = IndexOutOfRange | MakeSliceLen | IntnArgument

datatype 'a exec = Panics panic | Returns 'a

text \<open>Reading \<open>xs[i]\<close> with a Go \<open>int\<close> index; \<open>None\<close> is the index-out-of-range panic.\<close>

definition elem :: "'a list \<Rightarrow> int \<Rightarrow> 'a option" where
  "elem xs i = (if 0 \<le> i \<and> i < int (length xs) then Some (xs ! nat i) else None)"

subsection \<open>The random source\<close>

text \<open>
  \<open>math/rand\<close> is a deterministic generator: its state fixes every value it will return.
  The state is modelled as the sequence of raw values still to come. The field
  \<open>RandSource\<close> of \<open>Bird\<close> points to one generator shared with every sampler, so the
  model passes the state through each function that draws from it and returns it advanced.
\<close>

type_synonym Rand = "nat \<Rightarrow> nat"

definition advance :: "Rand \<Rightarrow> Rand" where
  "advance r = (\<lambda>i. r (i + 1))"

definition Intn :: "int \<Rightarrow> Rand \<Rightarrow> (int \<times> Rand) exec" where
  "Intn n r = (if n \<le> 0 then Panics IntnArgument
               else Returns (int (r 0) mod n, advance r))"

subsection \<open>The sampler package\<close>

text \<open>
  Modelled from the spec: the package \<open>sampler\<close> (\<open>AliasSampler\<close>, \<open>NewAliasSampler\<close>,
  \<open>Sample\<close>) is not among the sources. The model keeps what the specification fixes at
  the interface. A sampler is bound to the weight vector it was built from; the alias
  tables, which fix only the probability of each index, are not modelled.
\<close>

datatype AliasSampler = AliasSampler (samplerWeights: "real list")

text \<open>
  Modelled from the spec: \<open>NewAliasSampler\<close> is not among the sources. Construction fails
  with \<open>EmptyDistribution\<close> for an empty weight vector and with \<open>InvalidWeight\<close> for a
  negative weight or a zero sum (a non-finite weight has no counterpart in \<open>real\<close>).
\<close>

definition NewAliasSampler :: "real list \<Rightarrow> error + AliasSampler" where
  "NewAliasSampler ws =
     (if length ws = 0 then Inl EmptyDistribution
      else if (\<exists>w \<in> set ws. w < 0) \<or> sum_list ws = 0 then Inl InvalidWeight
      else Inr (AliasSampler ws))"

text \<open>
  Modelled from the spec: \<open>Sample\<close> is not among the sources. \<open>Sample k\<close> returns exactly
  \<open>k\<close> indices in \<open>[0, n)\<close>, where \<open>n\<close> is the number of weights, and consumes the random
  source. Which index a draw returns is decided by the random source alone, so the model
  allows every sequence of in-range indices (also those of weight 0).
\<close>

fun Sample :: "AliasSampler \<Rightarrow> nat \<Rightarrow> Rand \<Rightarrow> nat list \<times> Rand" where
  "Sample s 0 r = ([], r)"
| "Sample s (Suc k) r =
     (case Sample s k (advance r) of
        (ks, r') \<Rightarrow> (r 0 mod length (samplerWeights s) # ks, r'))"

subsection \<open>The walker\<close>

text \<open>
  \<open>Cfg\<close> is a pointer to the caller's configuration; the record holds its value at the
  time of a call. \<open>RandSource\<close> is the generator state passed alongside the walker.
\<close>

record Bird =
  Cfg :: BirdCfg
  ItemWeights :: "real list"
  UsersToItems :: "int list list"
  ItemsToUsers :: "int list list"
  UserItemsSamplers :: "AliasSampler list"

section \<open>Construction\<close>

subsection \<open>validateBirdInputs\<close>

definition maxItem :: "int list list \<Rightarrow> int" where
  "maxItem usersToItems =
     fold (\<lambda>userItems m. fold (\<lambda>item m. if item > m then item else m) userItems m)
       usersToItems 0"

definition validateBirdInputs :: "real list \<Rightarrow> int list list \<Rightarrow> error option" where
  "validateBirdInputs itemWeights usersToItems =
     (if length itemWeights = 0 then Some (errors_New ''empty slice of item weights'')
      else if length usersToItems = 0
        then Some (errors_New ''empty users to items adjacency table'')
      else if int (length itemWeights) \<le> maxItem usersToItems
        then Some (errors_New ''UsersToItems references more items itemWeights'')
      else None)"

subsection \<open>initUserItemsSamplers\<close>

text \<open>The inner loop: \<open>weights[j] = itemWeights[item]\<close> for each item of one user.\<close>

fun userWeights :: "real list \<Rightarrow> int list \<Rightarrow> real list exec" where
  "userWeights itemWeights [] = Returns []"
| "userWeights itemWeights (item # userItems) =
     (case elem itemWeights item of
        None \<Rightarrow> Panics IndexOutOfRange
      | Some w \<Rightarrow>
          (case userWeights itemWeights userItems of
             Panics p \<Rightarrow> Panics p
           | Returns ws \<Rightarrow> Returns (w # ws)))"

fun initUserItemsSamplers ::
  "real list \<Rightarrow> int list list \<Rightarrow> (error + AliasSampler list) exec" where
  "initUserItemsSamplers itemWeights [] = Returns (Inr [])"
| "initUserItemsSamplers itemWeights (userItems # userToItems) =
     (case userWeights itemWeights userItems of
        Panics p \<Rightarrow> Panics p
      | Returns ws \<Rightarrow>
          (case NewAliasSampler ws of
             Inl err \<Rightarrow>
               Returns (Inl (errors_Wrap err
                 ''could not initialize the probability and alias tables''))
           | Inr userItemsSampler \<Rightarrow>
               (case initUserItemsSamplers itemWeights userToItems of
                  Panics p \<Rightarrow> Panics p
                | Returns (Inl err) \<Rightarrow> Returns (Inl err)
                | Returns (Inr userItemsSamplers) \<Rightarrow>
                    Returns (Inr (userItemsSampler # userItemsSamplers)))))"

subsection \<open>permuteAdjacencyList\<close>

text \<open>
  The inner loop appends \<open>uid\<close> to the list of each item of one user; the outer loop
  runs over the users with their index \<open>uid\<close>.
\<close>

fun permuteUser :: "int \<Rightarrow> int list \<Rightarrow> int list list \<Rightarrow> int list list exec" where
  "permuteUser uid [] itemsToUsers = Returns itemsToUsers"
| "permuteUser uid (iid # userItems) itemsToUsers =
     (case elem itemsToUsers iid of
        None \<Rightarrow> Panics IndexOutOfRange
      | Some users \<Rightarrow>
          permuteUser uid userItems (itemsToUsers[nat iid := users @ [uid]]))"

fun permuteUsers :: "int \<Rightarrow> int list list \<Rightarrow> int list list \<Rightarrow> int list list exec" where
  "permuteUsers uid [] itemsToUsers = Returns itemsToUsers"
| "permuteUsers uid (userItems # usersToItems) itemsToUsers =
     (case permuteUser uid userItems itemsToUsers of
        Panics p \<Rightarrow> Panics p
      | Returns itemsToUsers' \<Rightarrow> permuteUsers (uid + 1) usersToItems itemsToUsers')"

definition permuteAdjacencyList :: "int \<Rightarrow> int list list \<Rightarrow> int list list exec" where
  "permuteAdjacencyList numItems usersToItems =
     (if numItems < 0 then Panics MakeSliceLen
      else permuteUsers 0 usersToItems (replicate (nat numItems) []))"

subsection \<open>NewBird\<close>

text \<open>
  \<open>NewBird\<close> seeds the generator from the clock. The clock's reading \<open>now\<close> and the
  library's seeding function \<open>newRand\<close> (\<open>rand.New (rand.NewSource seed)\<close>) are
  parameters of the model. On an error the Go function also returns a nil or an empty
  \<open>Bird\<close>, which the model leaves out.
\<close>

definition NewBird ::
  "(int \<Rightarrow> Rand) \<Rightarrow> int \<Rightarrow> BirdCfg \<Rightarrow> real list \<Rightarrow> int list list
     \<Rightarrow> (error + Bird \<times> Rand) exec" where
  "NewBird newRand now cfg itemWeights usersToItems =
     (if Depth cfg < 1
        then Returns (Inl (errors_New ''the depth must be greater than or equal to 1''))
      else if Draws cfg < 1
        then Returns (Inl (errors_New
               ''the number of draws must be greater than or equal to 1''))
      else
        let randSource = newRand now in
        (case validateBirdInputs itemWeights usersToItems of
           Some err \<Rightarrow> Returns (Inl (errors_Wrap err ''invalid input''))
         | None \<Rightarrow>
             (case initUserItemsSamplers itemWeights usersToItems of
                Panics p \<Rightarrow> Panics p
              | Returns (Inl err) \<Rightarrow>
                  Returns (Inl (errors_Wrap err ''cannot initialize samplers''))
              | Returns (Inr userItemsSampler) \<Rightarrow>
                  (case permuteAdjacencyList (int (length itemWeights)) usersToItems of
                     Panics p \<Rightarrow> Panics p
                   | Returns itemsToUsers \<Rightarrow>
                       Returns (Inr (\<lparr>Cfg = cfg,
                                      ItemWeights = itemWeights,
                                      UsersToItems = usersToItems,
                                      ItemsToUsers = itemsToUsers,
                                      UserItemsSamplers = userItemsSampler\<rparr>,
                                     randSource))))))"

section \<open>Processing a query\<close>

subsection \<open>sampleItemsFromQuery\<close>

text \<open>The first loop fills \<open>weights\<close> and \<open>items\<close> from the query.\<close>

fun queryTables :: "Bird \<Rightarrow> QueryItem list \<Rightarrow> (real list \<times> int list) exec" where
  "queryTables b [] = Returns ([], [])"
| "queryTables b (q # query) =
     (case elem (ItemWeights b) (Item q) of
        None \<Rightarrow> Panics IndexOutOfRange
      | Some w \<Rightarrow>
          (case queryTables b query of
             Panics p \<Rightarrow> Panics p
           | Returns (weights, items) \<Rightarrow>
               Returns (Weight q * w # weights, Item q # items)))"

text \<open>
  The second loop runs over the sampled positions \<open>iid\<close> with their index \<open>i\<close> and writes
  \<open>sampledItems[i]\<close>, unless the item has no user, in which case it continues.
\<close>

fun fillSampled ::
  "Bird \<Rightarrow> int list \<Rightarrow> nat \<Rightarrow> nat list \<Rightarrow> int list \<Rightarrow> int list exec" where
  "fillSampled b items i [] sampledItems = Returns sampledItems"
| "fillSampled b items i (iid # iids) sampledItems =
     (case elem items (int iid) of
        None \<Rightarrow> Panics IndexOutOfRange
      | Some item \<Rightarrow>
          (case elem (ItemsToUsers b) item of
             None \<Rightarrow> Panics IndexOutOfRange
           | Some users \<Rightarrow>
               if length users = 0 then fillSampled b items (Suc i) iids sampledItems
               else if i < length sampledItems
                 then fillSampled b items (Suc i) iids (sampledItems[i := item])
               else Panics IndexOutOfRange))"

definition sampleItemsFromQuery ::
  "Bird \<Rightarrow> QueryItem list \<Rightarrow> Rand \<Rightarrow> ((error + int list) \<times> Rand) exec" where
  "sampleItemsFromQuery b query r =
     (case queryTables b query of
        Panics p \<Rightarrow> Panics p
      | Returns (weights, items) \<Rightarrow>
          (case NewAliasSampler weights of
             Inl err \<Rightarrow> Returns (Inl (errors_Wrap err ''cannot create sampler''), r)
           | Inr s \<Rightarrow>
               if Draws (Cfg b) < 0 then Panics MakeSliceLen
               else
                 (case Sample s (nat (Draws (Cfg b))) r of
                    (iids, r') \<Rightarrow>
                      (case fillSampled b items 0 iids
                              (replicate (nat (Draws (Cfg b))) 0) of
                         Panics p \<Rightarrow> Panics p
                       | Returns sampledItems \<Rightarrow>
                           if length sampledItems = 0
                           then Returns (Inl (errors_New
                             ''no items were sampled,check that the query refers to actual items.''), r')
                           else Returns (Inr sampledItems, r')))))"

subsection \<open>step\<close>

definition sampleItem :: "Bird \<Rightarrow> int \<Rightarrow> Rand \<Rightarrow> (int \<times> Rand) exec" where
  "sampleItem b user r =
     (case elem (UserItemsSamplers b) user of
        None \<Rightarrow> Panics IndexOutOfRange
      | Some s \<Rightarrow>
          (case elem (UsersToItems b) user of
             None \<Rightarrow> Panics IndexOutOfRange
           | Some userItems \<Rightarrow>
               (case Sample s 1 r of
                  (ks, r') \<Rightarrow>
                    (case ks of
                       [] \<Rightarrow> Panics IndexOutOfRange
                     | k # _ \<Rightarrow>
                         (case elem userItems (int k) of
                            None \<Rightarrow> Panics IndexOutOfRange
                          | Some sampledItem \<Rightarrow> Returns (sampledItem, r'))))))"

text \<open>The first loop of \<open>step\<close>: one referrer for each incoming item, or the error.\<close>

fun chooseReferrers :: "Bird \<Rightarrow> int list \<Rightarrow> Rand \<Rightarrow> ((error + int list) \<times> Rand) exec" where
  "chooseReferrers b [] r = Returns (Inr [], r)"
| "chooseReferrers b (item # items) r =
     (case elem (ItemsToUsers b) item of
        None \<Rightarrow> Panics IndexOutOfRange
      | Some relatedUsers \<Rightarrow>
          if length relatedUsers = 0
          then Returns (Inl (fmt_Errorf_no_interaction item), r)
          else
            (case Intn (int (length relatedUsers)) r of
               Panics p \<Rightarrow> Panics p
             | Returns (k, r') \<Rightarrow>
                 (case elem relatedUsers k of
                    None \<Rightarrow> Panics IndexOutOfRange
                  | Some user \<Rightarrow>
                      (case chooseReferrers b items r' of
                         Panics p \<Rightarrow> Panics p
                       | Returns (Inl err, r'') \<Rightarrow> Returns (Inl err, r'')
                       | Returns (Inr referrers, r'') \<Rightarrow>
                           Returns (Inr (user # referrers), r'')))))"

text \<open>The second loop of \<open>step\<close>: one new item for each referrer.\<close>

fun drawNewItems :: "Bird \<Rightarrow> int list \<Rightarrow> Rand \<Rightarrow> (int list \<times> Rand) exec" where
  "drawNewItems b [] r = Returns ([], r)"
| "drawNewItems b (user # referrers) r =
     (case sampleItem b user r of
        Panics p \<Rightarrow> Panics p
      | Returns (item, r') \<Rightarrow>
          (case drawNewItems b referrers r' of
             Panics p \<Rightarrow> Panics p
           | Returns (newItems, r'') \<Rightarrow> Returns (item # newItems, r'')))"

text \<open>
  \<open>step\<close> and \<open>Process\<close> return Go's triple: the two slices (nil is the empty list) and
  the error (nil is \<open>None\<close>).
\<close>

definition step ::
  "Bird \<Rightarrow> int list \<Rightarrow> Rand \<Rightarrow> ((int list \<times> int list \<times> error option) \<times> Rand) exec" where
  "step b items r =
     (case chooseReferrers b items r of
        Panics p \<Rightarrow> Panics p
      | Returns (Inl err, r') \<Rightarrow> Returns (([], [], Some err), r')
      | Returns (Inr referrers, r') \<Rightarrow>
          (case drawNewItems b referrers r' of
             Panics p \<Rightarrow> Panics p
           | Returns (newItems, r'') \<Rightarrow> Returns ((newItems, referrers, None), r'')))"

subsection \<open>Process\<close>

text \<open>
  The depth loop. Inside the loop body \<open>stepItems, stepReferrers, err := b.step(stepItems)\<close>
  declares new variables in the body's scope; the argument \<open>stepItems\<close> is read before
  they exist, so it is the variable of the enclosing scope, which the loop never assigns.
  The parameter \<open>stepItems\<close> below is that outer variable; the result of \<open>step\<close> is bound
  to \<open>stepItems'\<close>.
\<close>

function ProcessLoop ::
  "Bird \<Rightarrow> int list \<Rightarrow> int \<Rightarrow> int list \<Rightarrow> int list \<Rightarrow> Rand
     \<Rightarrow> ((int list \<times> int list \<times> error option) \<times> Rand) exec" where
  "ProcessLoop b stepItems d items referrers r =
     (if d < Depth (Cfg b) then
        (case step b stepItems r of
           Panics p \<Rightarrow> Panics p
         | Returns ((stepItems', stepReferrers, Some err), r') \<Rightarrow>
             Returns (([], [], Some (errors_Wrap err ''cannot step through items'')), r')
         | Returns ((stepItems', stepReferrers, None), r') \<Rightarrow>
             ProcessLoop b stepItems (d + 1)
               (items @ stepItems') (referrers @ stepReferrers) r')
      else Returns ((items, referrers, None), r))"
  by pat_completeness auto
termination
  by (relation "measure (\<lambda>(b, stepItems, d, items, referrers, r). nat (Depth (Cfg b) - d))")
    auto

declare ProcessLoop.simps [simp del]

definition Process ::
  "Bird \<Rightarrow> QueryItem list \<Rightarrow> Rand
     \<Rightarrow> ((int list \<times> int list \<times> error option) \<times> Rand) exec" where
  "Process b query r =
     (if length query = 0 then Returns (([], [], Some (errors_New ''empty query'')), r)
      else
        (case sampleItemsFromQuery b query r of
           Panics p \<Rightarrow> Panics p
         | Returns (Inl err, r') \<Rightarrow>
             Returns (([], [], Some (errors_Wrap err ''cannot sample items'')), r')
         | Returns (Inr stepItems, r') \<Rightarrow> ProcessLoop b stepItems 0 [] [] r'))"

section \<open>Notions used to state the properties\<close>

text \<open>
  The seed positions of a call: the value of \<open>s.Sample(b.Cfg.Draws)\<close> in
  \<open>sampleItemsFromQuery\<close>, the positions in the query that the sampler drew.
\<close>

definition seedPositions :: "Bird \<Rightarrow> QueryItem list \<Rightarrow> Rand \<Rightarrow> nat list" where
  "seedPositions b query r =
     (case queryTables b query of
        Panics p \<Rightarrow> []
      | Returns (weights, items) \<Rightarrow>
          (case NewAliasSampler weights of
             Inl err \<Rightarrow> []
           | Inr s \<Rightarrow> fst (Sample s (nat (Draws (Cfg b))) r)))"

text \<open>
  A generator that returns the values of a list in order, and 0 from then on: the
  generator of the concrete runs below.
\<close>

definition tapeOf :: "nat list \<Rightarrow> Rand" where
  "tapeOf xs = (\<lambda>i. if i < length xs then xs ! i else 0)"

text \<open>
  The errors of \<open>NewBird\<close>'s checks of the configuration and of the input: the two
  messages about depth and draws, and an error of \<open>validateBirdInputs\<close> wrapped as
  invalid input.
\<close>

fun validationError :: "error \<Rightarrow> bool" where
  "validationError (errors_New msg) =
     (msg = ''the depth must be greater than or equal to 1'' \<or>
      msg = ''the number of draws must be greater than or equal to 1'')"
| "validationError (errors_Wrap err msg) = (msg = ''invalid input'')"
| "validationError err = False"

text \<open>
  The tables of a walker fit together: one list of users per item weight, one sampler per
  user over as many outcomes as the user has items (at least one), only users of
  \<open>UsersToItems\<close> in \<open>ItemsToUsers\<close>, and a number of draws that is not negative.
\<close>

definition wellFormed :: "Bird \<Rightarrow> bool" where
  "wellFormed b \<longleftrightarrow>
     length (ItemsToUsers b) = length (ItemWeights b) \<and>
     length (UserItemsSamplers b) = length (UsersToItems b) \<and>
     (\<forall>users \<in> set (ItemsToUsers b). \<forall>u \<in> set users.
        0 \<le> u \<and> u < int (length (UsersToItems b))) \<and>
     (\<forall>u < length (UsersToItems b).
        length (samplerWeights (UserItemsSamplers b ! u)) = length (UsersToItems b ! u) \<and>
        0 < length (UsersToItems b ! u)) \<and>
     0 \<le> Draws (Cfg b)"

section \<open>Properties\<close>

subsection \<open>Indexing\<close>

lemma elem_Some_iff: "elem xs i = Some x \<longleftrightarrow> 0 \<le> i \<and> i < int (length xs) \<and> x = xs ! nat i"
  by (auto simp: elem_def)

lemma elem_None_iff: "elem xs i = None \<longleftrightarrow> \<not> (0 \<le> i \<and> i < int (length xs))"
  by (auto simp: elem_def)

lemma permuteUser_length:
  "permuteUser uid userItems acc = Returns acc' \<Longrightarrow> length acc' = length acc"
  by (induction userItems arbitrary: acc) (auto split: option.splits)

lemma permuteUser_count:
  "permuteUser uid userItems acc = Returns acc' \<Longrightarrow> i < length acc \<Longrightarrow>
   count_list (acc' ! i) u =
     count_list (acc ! i) u + (if u = uid then count_list userItems (int i) else 0)"
proof (induction userItems arbitrary: acc)
  case Nil
  then show ?case by simp
next
  case (Cons iid userItems)
  from Cons.prems(1) obtain users where
    e: "elem acc iid = Some users" and
    rest: "permuteUser uid userItems (acc[nat iid := users @ [uid]]) = Returns acc'"
    by (auto split: option.splits)
  from e have rng: "0 \<le> iid" "nat iid < length acc" and users: "users = acc ! nat iid"
    by (auto simp: elem_Some_iff)
  have "count_list (acc' ! i) u =
     count_list (acc[nat iid := users @ [uid]] ! i) u + (if u = uid then count_list userItems (int i) else 0)"
    using Cons.IH [OF rest] Cons.prems(2) by simp
  moreover have "count_list (acc[nat iid := users @ [uid]] ! i) u =
     count_list (acc ! i) u + (if u = uid \<and> iid = int i then 1 else 0)"
    using rng users Cons.prems(2) by (auto simp: nth_list_update)
  ultimately show ?case by simp
qed

lemma permuteUser_set:
  "permuteUser uid userItems acc = Returns acc' \<Longrightarrow> i \<in> set userItems \<Longrightarrow>
   0 \<le> i \<and> i < int (length acc)"
proof (induction userItems arbitrary: acc)
  case Nil
  then show ?case by simp
next
  case (Cons iid userItems)
  then show ?case
    by (fastforce split: option.splits simp: elem_Some_iff)
qed

lemma permuteUser_returns:
  "\<forall>i \<in> set userItems. 0 \<le> i \<and> i < int (length acc) \<Longrightarrow>
   \<exists>acc'. permuteUser uid userItems acc = Returns acc'"
proof (induction userItems arbitrary: acc)
  case Nil
  then show ?case by simp
next
  case (Cons iid userItems)
  then show ?case by (simp add: elem_def)
qed

lemma permuteUsers_length:
  "permuteUsers uid usersToItems acc = Returns acc' \<Longrightarrow> length acc' = length acc"
  by (induction usersToItems arbitrary: acc uid)
     (auto split: exec.splits dest: permuteUser_length)

lemma permuteUsers_count:
  "permuteUsers uid usersToItems acc = Returns acc' \<Longrightarrow> i < length acc \<Longrightarrow>
   count_list (acc' ! i) u =
     count_list (acc ! i) u +
       (if uid \<le> u \<and> u < uid + int (length usersToItems)
        then count_list (usersToItems ! nat (u - uid)) (int i) else 0)"
proof (induction usersToItems arbitrary: acc uid)
  case Nil
  then show ?case by simp
next
  case (Cons userItems usersToItems)
  from Cons.prems(1) obtain acc1 where
    one: "permuteUser uid userItems acc = Returns acc1" and
    rest: "permuteUsers (uid + 1) usersToItems acc1 = Returns acc'"
    by (auto split: exec.splits)
  have len: "length acc1 = length acc" using one by (rule permuteUser_length)
  have a: "count_list (acc1 ! i) u =
     count_list (acc ! i) u + (if u = uid then count_list userItems (int i) else 0)"
    using one Cons.prems(2) by (rule permuteUser_count)
  have b: "count_list (acc' ! i) u =
     count_list (acc1 ! i) u +
       (if uid + 1 \<le> u \<and> u < uid + 1 + int (length usersToItems)
        then count_list (usersToItems ! nat (u - (uid + 1))) (int i) else 0)"
    using Cons.IH [OF rest] Cons.prems(2) len by simp
  show ?case
  proof (cases "u = uid")
    case True
    then show ?thesis using a b by simp
  next
    case False
    have "uid + 1 \<le> u \<Longrightarrow> nat (u - uid) = Suc (nat (u - (uid + 1)))" by simp
    then show ?thesis using a b False by auto
  qed
qed

lemma permuteUsers_set:
  "permuteUsers uid usersToItems acc = Returns acc' \<Longrightarrow> userItems \<in> set usersToItems \<Longrightarrow>
   i \<in> set userItems \<Longrightarrow> 0 \<le> i \<and> i < int (length acc)"
proof (induction usersToItems arbitrary: acc uid)
  case Nil
  then show ?case by simp
next
  case (Cons a usersToItems)
  from Cons.prems(1) obtain acc1 where
    one: "permuteUser uid a acc = Returns acc1" and
    rest: "permuteUsers (uid + 1) usersToItems acc1 = Returns acc'"
    by (auto split: exec.splits)
  have len: "length acc1 = length acc" using one by (rule permuteUser_length)
  show ?case
  proof (cases "userItems = a")
    case True
    then show ?thesis using permuteUser_set [OF one] Cons.prems(3) by simp
  next
    case False
    then have "userItems \<in> set usersToItems" using Cons.prems(2) by simp
    then show ?thesis using Cons.IH [OF rest _ Cons.prems(3)] len by simp
  qed
qed

lemma permuteUsers_returns:
  "\<forall>userItems \<in> set usersToItems. \<forall>i \<in> set userItems. 0 \<le> i \<and> i < int (length acc) \<Longrightarrow>
   \<exists>acc'. permuteUsers uid usersToItems acc = Returns acc'"
proof (induction usersToItems arbitrary: acc uid)
  case Nil
  then show ?case by simp
next
  case (Cons a usersToItems)
  then obtain acc1 where one: "permuteUser uid a acc = Returns acc1"
    using permuteUser_returns [of a acc uid] by auto
  have len: "length acc1 = length acc" using one by (rule permuteUser_length)
  show ?case using Cons.IH [of acc1 "uid + 1"] Cons.prems one len by simp
qed

subsection \<open>The reverse adjacency\<close>

lemma permuteAdjacencyList_returns:
  assumes "0 \<le> numItems"
    and "\<forall>userItems \<in> set usersToItems. \<forall>i \<in> set userItems. 0 \<le> i \<and> i < numItems"
  shows "\<exists>itemsToUsers. permuteAdjacencyList numItems usersToItems = Returns itemsToUsers"
proof -
  have "\<forall>userItems \<in> set usersToItems. \<forall>i \<in> set userItems.
      0 \<le> i \<and> i < int (length (replicate (nat numItems) ([] :: int list)))"
    using assms by simp
  from permuteUsers_returns [OF this, of 0] show ?thesis
    using assms(1) by (simp add: permuteAdjacencyList_def)
qed

text \<open>
  Claim C5. When \<open>permuteAdjacencyList\<close> returns, the table it built has one list per
  item (its length is \<open>numItems\<close>), and for every item \<open>i\<close> in range and every \<open>u\<close>, the
  number of times \<open>u\<close> stands in the list of item \<open>i\<close> is the number of times \<open>i\<close> stands
  in the list of user \<open>u\<close> (zero when \<open>u\<close> is no user). Every item of the forward table is
  in range, so no forward entry is lost.
\<close>

theorem permuteAdjacencyList_inverts:
  assumes "permuteAdjacencyList numItems usersToItems = Returns itemsToUsers"
  shows "int (length itemsToUsers) = numItems \<and>
         (\<forall>u i. 0 \<le> i \<and> i < numItems \<longrightarrow>
            count_list (itemsToUsers ! nat i) u =
              (if 0 \<le> u \<and> u < int (length usersToItems)
               then count_list (usersToItems ! nat u) i else 0)) \<and>
         (\<forall>userItems \<in> set usersToItems. \<forall>i \<in> set userItems. 0 \<le> i \<and> i < numItems)"
proof -
  from assms have n: "0 \<le> numItems" and
    run: "permuteUsers 0 usersToItems (replicate (nat numItems) []) = Returns itemsToUsers"
    by (auto simp: permuteAdjacencyList_def split: if_splits)
  have len: "length itemsToUsers = nat numItems"
    using permuteUsers_length [OF run] by simp
  have cnt: "count_list (itemsToUsers ! nat i) u =
              (if 0 \<le> u \<and> u < int (length usersToItems)
               then count_list (usersToItems ! nat u) i else 0)"
    if "0 \<le> i" "i < numItems" for u i
    using permuteUsers_count [OF run, of "nat i" u] that by simp
  have rng: "0 \<le> i \<and> i < numItems" if "userItems \<in> set usersToItems" "i \<in> set userItems"
    for userItems i
    using permuteUsers_set [OF run that] n by simp
  show ?thesis using len n cnt rng by auto
qed

theorem permuteAdjacencyList_inverts_witness:
  "permuteAdjacencyList 4 [[0, 1], [1, 2], [2, 3, 2]] = Returns [[0], [0, 1], [1, 2, 2], [2]] \<and>
   count_list ([[0], [0, 1], [1, 2, 2], [2::int]] ! nat 2) 2 = count_list ([[0, 1], [1, 2], [2, 3, 2::int]] ! nat 2) 2"
proof -
  have run: "permuteAdjacencyList 4 [[0, 1], [1, 2], [2, 3, 2]] = Returns [[0], [0, 1], [1, 2, 2], [2]]"
    by (simp add: permuteAdjacencyList_def elem_def eval_nat_numeral)
  show ?thesis using run permuteAdjacencyList_inverts [OF run] by simp
qed

subsection \<open>The sampler and the seeds\<close>

lemma Sample_length: "length (fst (Sample s k r)) = k"
  by (induction k arbitrary: r) (simp_all add: case_prod_beta)

lemma Sample_range:
  "0 < length (samplerWeights s) \<Longrightarrow> i \<in> set (fst (Sample s k r)) \<Longrightarrow>
   i < length (samplerWeights s)"
  by (induction k arbitrary: r) (auto simp: case_prod_beta)

lemma NewAliasSampler_Inr:
  "NewAliasSampler ws = Inr s \<Longrightarrow> samplerWeights s = ws \<and> 0 < length ws"
  by (auto simp: NewAliasSampler_def split: if_splits)

lemma queryTables_Returns:
  "queryTables b query = Returns (ws, items) \<Longrightarrow>
   items = map Item query \<and> length ws = length query \<and>
   (\<forall>q \<in> set query. 0 \<le> Item q \<and> Item q < int (length (ItemWeights b)))"
proof (induction query arbitrary: ws items)
  case Nil
  then show ?case by simp
next
  case (Cons q query)
  then show ?case
    by (auto split: option.splits exec.splits simp: elem_Some_iff)
qed

lemma queryTables_total:
  "\<forall>q \<in> set query. 0 \<le> Item q \<and> Item q < int (length (ItemWeights b)) \<Longrightarrow>
   \<exists>ws. queryTables b query = Returns (ws, map Item query)"
proof (induction query)
  case Nil
  then show ?case by simp
next
  case (Cons q query)
  then show ?case by (auto simp: elem_def)
qed

lemma fillSampled_length:
  "fillSampled b items i iids sampled = Returns out \<Longrightarrow> length out = length sampled"
  by (induction iids arbitrary: i sampled)
     (auto split: option.splits if_splits)

lemma fillSampled_nth:
  "fillSampled b items i iids sampled = Returns out \<Longrightarrow> j < length sampled \<Longrightarrow>
   out ! j =
     (if i \<le> j \<and> j < i + length iids \<and>
         elem (ItemsToUsers b) (items ! (iids ! (j - i))) \<noteq> Some []
      then items ! (iids ! (j - i)) else sampled ! j)"
proof (induction iids arbitrary: i sampled)
  case Nil
  then show ?case by simp
next
  case (Cons iid iids)
  from Cons.prems(1) obtain item users where
    it: "elem items (int iid) = Some item" and us: "elem (ItemsToUsers b) item = Some users"
    by (auto split: option.splits)
  from it have item: "item = items ! iid" by (simp add: elem_Some_iff)
  show ?case
  proof (cases "length users = 0")
    case True
    with Cons.prems(1) it us
    have rest: "fillSampled b items (Suc i) iids sampled = Returns out" by simp
    have empty: "elem (ItemsToUsers b) (items ! iid) = Some []"
      using us True item by simp
    show ?thesis
    proof (cases "j = i")
      case True
      then show ?thesis using Cons.IH [OF rest Cons.prems(2)] empty by simp
    next
      case False
      have "i \<le> j \<Longrightarrow> (iid # iids) ! (j - i) = iids ! (j - Suc i)"
        using False by (simp add: nth_Cons')
      then show ?thesis using Cons.IH [OF rest Cons.prems(2)] False by auto
    qed
  next
    case False
    with Cons.prems(1) it us
    have inb: "i < length sampled" and
      rest: "fillSampled b items (Suc i) iids (sampled[i := item]) = Returns out"
      by (auto split: if_splits)
    have nonempty: "elem (ItemsToUsers b) (items ! iid) \<noteq> Some []"
      using us False item by auto
    have j': "j < length (sampled[i := item])" using Cons.prems(2) by simp
    show ?thesis
    proof (cases "j = i")
      case True
      then show ?thesis using Cons.IH [OF rest j'] nonempty inb item by simp
    next
      case neq: False
      have "i \<le> j \<Longrightarrow> (iid # iids) ! (j - i) = iids ! (j - Suc i)"
        using neq by (simp add: nth_Cons')
      then show ?thesis using Cons.IH [OF rest j'] neq by auto
    qed
  qed
qed

lemma fillSampled_lookups:
  "fillSampled b items i iids sampled = Returns out \<Longrightarrow> iid \<in> set iids \<Longrightarrow>
   iid < length items \<and> elem (ItemsToUsers b) (items ! iid) \<noteq> None"
proof (induction iids arbitrary: i sampled)
  case Nil
  then show ?case by simp
next
  case (Cons a iids)
  then show ?case
    by (auto split: option.splits if_splits simp: elem_Some_iff)
qed

lemma fillSampled_total:
  "\<forall>iid \<in> set iids. iid < length items \<and> elem (ItemsToUsers b) (items ! iid) \<noteq> None \<Longrightarrow>
   i + length iids \<le> length sampled \<Longrightarrow>
   \<exists>out. fillSampled b items i iids sampled = Returns out"
proof (induction iids arbitrary: i sampled)
  case Nil
  then show ?case by simp
next
  case (Cons a iids)
  from Cons.prems(1) obtain users where
    it: "elem items (int a) = Some (items ! a)" and
    us: "elem (ItemsToUsers b) (items ! a) = Some users"
    by (auto simp: elem_Some_iff)
  have rest: "\<exists>out. fillSampled b items (Suc i) iids sampled' = Returns out"
    if "length sampled' = length sampled" for sampled'
    using Cons.IH [of "Suc i" sampled'] Cons.prems that by simp
  show ?case using it us rest [of sampled] rest [of "sampled[i := items ! a]"] Cons.prems(2)
    by simp
qed

lemma sampleItemsFromQuery_Inr:
  assumes "sampleItemsFromQuery b query r = Returns (Inr sampledItems, r')"
  obtains ws s where
    "queryTables b query = Returns (ws, map Item query)"
    "NewAliasSampler ws = Inr s"
    "0 \<le> Draws (Cfg b)"
    "fillSampled b (map Item query) 0 (fst (Sample s (nat (Draws (Cfg b))) r))
       (replicate (nat (Draws (Cfg b))) 0) = Returns sampledItems"
    "r' = snd (Sample s (nat (Draws (Cfg b))) r)"
    "sampledItems \<noteq> []"
proof -
  from assms obtain ws items where qt: "queryTables b query = Returns (ws, items)"
    by (auto simp: sampleItemsFromQuery_def split: exec.splits)
  then have items: "items = map Item query" by (simp add: queryTables_Returns)
  from assms qt obtain s where s: "NewAliasSampler ws = Inr s"
    by (auto simp: sampleItemsFromQuery_def split: sum.splits)
  from assms qt s have d: "0 \<le> Draws (Cfg b)"
    by (auto simp: sampleItemsFromQuery_def split: if_splits)
  from assms qt s d have
    "fillSampled b items 0 (fst (Sample s (nat (Draws (Cfg b))) r))
       (replicate (nat (Draws (Cfg b))) 0) = Returns sampledItems \<and>
     r' = snd (Sample s (nat (Draws (Cfg b))) r) \<and> sampledItems \<noteq> []"
    by (auto simp: sampleItemsFromQuery_def case_prod_beta split: exec.splits if_splits)
  then show thesis using that qt s d items by simp
qed

text \<open>
  Claim C3. When \<open>sampleItemsFromQuery\<close> returns seeds, the slice has exactly
  \<open>Cfg.Draws\<close> slots, one for each sampled position; the slot of a position whose query
  item has an empty list in \<open>ItemsToUsers\<close> holds the default 0, and every other slot
  holds the query item of its position.
\<close>

theorem sampleItemsFromQuery_default_slot:
  assumes "sampleItemsFromQuery b query r = Returns (Inr sampledItems, r')"
  shows "int (length sampledItems) = Draws (Cfg b) \<and>
         length (seedPositions b query r) = length sampledItems \<and>
         (\<forall>i < length sampledItems.
            seedPositions b query r ! i < length query \<and>
            sampledItems ! i =
              (if elem (ItemsToUsers b) (Item (query ! (seedPositions b query r ! i))) = Some []
               then 0 else Item (query ! (seedPositions b query r ! i))))"
proof -
  from assms obtain ws s where
    qt: "queryTables b query = Returns (ws, map Item query)" and
    s: "NewAliasSampler ws = Inr s" and
    d: "0 \<le> Draws (Cfg b)" and
    fill: "fillSampled b (map Item query) 0 (fst (Sample s (nat (Draws (Cfg b))) r))
       (replicate (nat (Draws (Cfg b))) 0) = Returns sampledItems"
    by (rule sampleItemsFromQuery_Inr)
  let ?iids = "fst (Sample s (nat (Draws (Cfg b))) r)"
  have pos: "seedPositions b query r = ?iids"
    using qt s by (simp add: seedPositions_def)
  have len: "length sampledItems = nat (Draws (Cfg b))"
    using fillSampled_length [OF fill] by simp
  have leni: "length ?iids = nat (Draws (Cfg b))" by (rule Sample_length)
  have slot: "?iids ! i < length query \<and>
      sampledItems ! i =
        (if elem (ItemsToUsers b) (Item (query ! (?iids ! i))) = Some []
         then 0 else Item (query ! (?iids ! i)))"
    if i: "i < length sampledItems" for i
  proof -
    have mem: "?iids ! i \<in> set ?iids" using i len leni by simp
    have inq: "?iids ! i < length query"
      using fillSampled_lookups [OF fill mem] by simp
    have "sampledItems ! i =
        (if elem (ItemsToUsers b) (map Item query ! (?iids ! i)) \<noteq> Some []
         then map Item query ! (?iids ! i) else 0)"
      using fillSampled_nth [OF fill, of i] i len leni by simp
    then show ?thesis using inq by simp
  qed
  show ?thesis using len d pos leni slot by simp
qed

theorem sampleItemsFromQuery_default_slot_witness:
  "sampleItemsFromQuery
     \<lparr>Cfg = \<lparr>Depth = 1, Draws = 2\<rparr>, ItemWeights = [1, 1, 1], UsersToItems = [[0, 2]],
      ItemsToUsers = [[0], [], [0]], UserItemsSamplers = [AliasSampler [1, 1]]\<rparr>
     [\<lparr>Item = 1, Weight = 1\<rparr>, \<lparr>Item = 2, Weight = 1\<rparr>] (\<lambda>i. i)
   = Returns (Inr [0, 2], advance (advance (\<lambda>i. i))) \<and>
   seedPositions
     \<lparr>Cfg = \<lparr>Depth = 1, Draws = 2\<rparr>, ItemWeights = [1, 1, 1], UsersToItems = [[0, 2]],
      ItemsToUsers = [[0], [], [0]], UserItemsSamplers = [AliasSampler [1, 1]]\<rparr>
     [\<lparr>Item = 1, Weight = 1\<rparr>, \<lparr>Item = 2, Weight = 1\<rparr>] (\<lambda>i. i) = [0, 1] \<and>
   int (length [0, 2 :: int]) = 2"
proof -
  let ?b = "\<lparr>Cfg = \<lparr>Depth = 1, Draws = 2\<rparr>, ItemWeights = [1, 1, 1],
      UsersToItems = [[0, 2]], ItemsToUsers = [[0], [], [0]],
      UserItemsSamplers = [AliasSampler [1, 1]]\<rparr>"
  let ?q = "[\<lparr>Item = 1, Weight = 1\<rparr>, \<lparr>Item = 2, Weight = 1\<rparr>]"
  have run: "sampleItemsFromQuery ?b ?q (\<lambda>i. i) =
      Returns (Inr [0, 2], advance (advance (\<lambda>i. i)))"
    by (simp add: sampleItemsFromQuery_def elem_def NewAliasSampler_def eval_nat_numeral
        advance_def)
  have pos: "seedPositions ?b ?q (\<lambda>i. i) = [0, 1]"
    by (simp add: seedPositions_def elem_def NewAliasSampler_def eval_nat_numeral advance_def)
  show ?thesis using run pos sampleItemsFromQuery_default_slot [OF run] by simp
qed

subsection \<open>The shape of the results\<close>

lemma chooseReferrers_Inr_length:
  "chooseReferrers b items r = Returns (Inr referrers, r') \<Longrightarrow> length referrers = length items"
proof (induction items arbitrary: r referrers)
  case Nil
  then show ?case by simp
next
  case (Cons item items)
  then show ?case
    by (auto split: option.splits if_splits exec.splits sum.splits)
qed

lemma drawNewItems_length:
  "drawNewItems b referrers r = Returns (newItems, r') \<Longrightarrow> length newItems = length referrers"
proof (induction referrers arbitrary: r newItems)
  case Nil
  then show ?case by simp
next
  case (Cons user referrers)
  then show ?case
    by (auto split: exec.splits)
qed

lemma step_shape:
  assumes "step b items r = Returns ((newItems, referrers, err), r')"
  shows "(err = None \<and> length newItems = length items \<and> length referrers = length items) \<or>
         (err \<noteq> None \<and> newItems = [] \<and> referrers = [])"
proof (cases err)
  case (Some e)
  then show ?thesis using assms
    by (auto simp: step_def split: exec.splits sum.splits)
next
  case None
  with assms obtain r1 where
    a: "chooseReferrers b items r = Returns (Inr referrers, r1)" and
    c: "drawNewItems b referrers r1 = Returns (newItems, r')"
    by (auto simp: step_def split: exec.splits sum.splits)
  show ?thesis
    using None chooseReferrers_Inr_length [OF a] drawNewItems_length [OF c] by simp
qed

lemma ProcessLoop_shape:
  "ProcessLoop b stepItems d items referrers r = Returns ((items', referrers', err), r') \<Longrightarrow>
   (err = None \<and>
      length items' = length items + nat (Depth (Cfg b) - d) * length stepItems \<and>
      length referrers' = length referrers + nat (Depth (Cfg b) - d) * length stepItems) \<or>
   (err \<noteq> None \<and> items' = [] \<and> referrers' = [])"
proof (induction b stepItems d items referrers r rule: ProcessLoop.induct)
  case (1 b stepItems d items referrers r)
  show ?case
  proof (cases "d < Depth (Cfg b)")
    case False
    then show ?thesis using "1.prems" by (simp add: ProcessLoop.simps)
  next
    case True
    from True "1.prems" obtain si sr e r1 where
      st: "step b stepItems r = Returns ((si, sr, e), r1)"
      by (auto simp: ProcessLoop.simps split: exec.splits)
    show ?thesis
    proof (cases e)
      case (Some e')
      then show ?thesis using True st "1.prems" by (auto simp: ProcessLoop.simps)
    next
      case None
      with True st "1.prems" have rest:
        "ProcessLoop b stepItems (d + 1) (items @ si) (referrers @ sr) r1 =
           Returns ((items', referrers', err), r')"
        by (simp add: ProcessLoop.simps)
      have lens: "length si = length stepItems" "length sr = length stepItems"
        using step_shape [OF st] None by auto
      have n: "nat (Depth (Cfg b) - d) = Suc (nat (Depth (Cfg b) - (d + 1)))"
        using True by simp
      show ?thesis
        using "1.IH" [OF True st refl refl _ refl rest] None lens n
        by (auto simp: algebra_simps)
    qed
  qed
qed

lemma sampleItemsFromQuery_Inr_length:
  assumes "sampleItemsFromQuery b query r = Returns (Inr seeds, r1)"
  shows "length seeds = nat (Draws (Cfg b))"
proof -
  from assms obtain ws s where
    "fillSampled b (map Item query) 0 (fst (Sample s (nat (Draws (Cfg b))) r))
       (replicate (nat (Draws (Cfg b))) 0) = Returns seeds"
    by (rule sampleItemsFromQuery_Inr)
  then show ?thesis using fillSampled_length by fastforce
qed

lemma Process_shape:
  assumes "Process b query r = Returns ((items, referrers, err), r')"
  shows "(err = None \<and>
            length items = nat (Depth (Cfg b)) * nat (Draws (Cfg b)) \<and>
            length referrers = nat (Depth (Cfg b)) * nat (Draws (Cfg b))) \<or>
         (err \<noteq> None \<and> items = [] \<and> referrers = [])"
proof (cases "length query = 0")
  case True
  then show ?thesis using assms by (auto simp: Process_def)
next
  case False
  with assms obtain res r1 where
    sq: "sampleItemsFromQuery b query r = Returns (res, r1)"
    by (auto simp: Process_def split: exec.splits)
  show ?thesis
  proof (cases res)
    case (Inl e)
    then show ?thesis using assms False sq by (auto simp: Process_def)
  next
    case (Inr seeds)
    with assms False sq have loop:
      "ProcessLoop b seeds 0 [] [] r1 = Returns ((items, referrers, err), r')"
      by (simp add: Process_def)
    from sq Inr have "sampleItemsFromQuery b query r = Returns (Inr seeds, r1)" by simp
    then have len: "length seeds = nat (Draws (Cfg b))"
      by (rule sampleItemsFromQuery_Inr_length)
    show ?thesis using ProcessLoop_shape [OF loop] len by auto
  qed
qed

lemma NewBird_Inr:
  assumes "NewBird newRand now cfg itemWeights usersToItems = Returns (Inr (b, r0))"
  shows "1 \<le> Depth cfg" "1 \<le> Draws cfg" "Cfg b = cfg" "ItemWeights b = itemWeights"
    "UsersToItems b = usersToItems" "r0 = newRand now"
    "validateBirdInputs itemWeights usersToItems = None"
    "initUserItemsSamplers itemWeights usersToItems = Returns (Inr (UserItemsSamplers b))"
    "permuteAdjacencyList (int (length itemWeights)) usersToItems = Returns (ItemsToUsers b)"
  using assms
  by (auto simp: NewBird_def Let_def split: if_splits option.splits exec.splits sum.splits)

subsection \<open>Evaluating concrete runs\<close>

lemma tapeOf_0 [simp]: "tapeOf (x # xs) 0 = x" "tapeOf [] i = 0"
  by (simp_all add: tapeOf_def)

lemma advance_tapeOf [simp]: "advance (tapeOf (x # xs)) = tapeOf xs" "advance (tapeOf []) = tapeOf []"
  by (auto simp: tapeOf_def advance_def)

lemma Sample_unfold:
  "0 < k \<Longrightarrow> Sample s k r =
     (case Sample s (k - 1) (advance r) of
        (ks, r') \<Rightarrow> (r 0 mod length (samplerWeights s) # ks, r'))"
  by (cases k) simp_all

lemma replicate_unfold: "0 < n \<Longrightarrow> replicate n x = x # replicate (n - 1) x"
  by (cases n) simp_all

lemmas run_defs = NewBird_def validateBirdInputs_def maxItem_def elem_def NewAliasSampler_def
  permuteAdjacencyList_def Process_def sampleItemsFromQuery_def step_def sampleItem_def
  Intn_def ProcessLoop.simps Sample_unfold replicate_unfold

subsection \<open>The length of the output\<close>

text \<open>
  Claim C4. For a walker that \<open>NewBird\<close> returned for the configuration \<open>cfg\<close>, whenever
  \<open>Process\<close> returns without an error, both sequences have length
  \<open>Depth cfg * Draws cfg\<close>.
\<close>

theorem Process_output_length:
  assumes "NewBird newRand now cfg itemWeights usersToItems = Returns (Inr (b, r0))"
    and "Process b query r = Returns ((items, referrers, None), r')"
  shows "int (length items) = Depth cfg * Draws cfg \<and>
         int (length referrers) = Depth cfg * Draws cfg"
proof -
  have cfg: "Cfg b = cfg" "1 \<le> Depth cfg" "1 \<le> Draws cfg"
    using NewBird_Inr [OF assms(1)] by simp_all
  have "length items = nat (Depth cfg) * nat (Draws cfg)"
       "length referrers = nat (Depth cfg) * nat (Draws cfg)"
    using Process_shape [OF assms(2)] cfg by simp_all
  then have "int (length items) = int (nat (Depth cfg)) * int (nat (Draws cfg))"
            "int (length referrers) = int (nat (Depth cfg)) * int (nat (Draws cfg))"
    by simp_all
  then show ?thesis using cfg by simp
qed

theorem Process_output_length_witness:
  "NewBird (\<lambda>seed. tapeOf [0, 0, 0, 1, 0, 1, 1, 0, 0, 1, 1, 0, 0, 1, 0]) 0
     \<lparr>Depth = 2, Draws = 3\<rparr> [1, 1] [[0, 1], [1]] =
     Returns (Inr (\<lparr>Cfg = \<lparr>Depth = 2, Draws = 3\<rparr>, ItemWeights = [1, 1],
                    UsersToItems = [[0, 1], [1]], ItemsToUsers = [[0], [0, 1]],
                    UserItemsSamplers = [AliasSampler [1, 1], AliasSampler [1]]\<rparr>,
                  tapeOf [0, 0, 0, 1, 0, 1, 1, 0, 0, 1, 1, 0, 0, 1, 0])) \<and>
   Process \<lparr>Cfg = \<lparr>Depth = 2, Draws = 3\<rparr>, ItemWeights = [1, 1],
            UsersToItems = [[0, 1], [1]], ItemsToUsers = [[0], [0, 1]],
            UserItemsSamplers = [AliasSampler [1, 1], AliasSampler [1]]\<rparr>
     [\<lparr>Item = 1, Weight = 1\<rparr>] (tapeOf [0, 0, 0, 1, 0, 1, 1, 0, 0, 1, 1, 0, 0, 1, 0]) =
     Returns (([1, 0, 1, 1, 1, 0], [1, 0, 1, 1, 1, 0], None), tapeOf []) \<and>
   int (length [1, 0, 1, 1, 1, 0 :: int]) = 2 * 3"
proof -
  let ?b = "\<lparr>Cfg = \<lparr>Depth = 2, Draws = 3\<rparr>, ItemWeights = [1, 1],
            UsersToItems = [[0, 1], [1]], ItemsToUsers = [[0], [0, 1]],
            UserItemsSamplers = [AliasSampler [1, 1], AliasSampler [1]]\<rparr>"
  let ?t = "tapeOf [0, 0, 0, 1, 0, 1, 1, 0, 0, 1, 1, 0, 0, 1, 0]"
  have new: "NewBird (\<lambda>seed. ?t) 0 \<lparr>Depth = 2, Draws = 3\<rparr> [1, 1] [[0, 1], [1]] =
     Returns (Inr (?b, ?t))"
    by (simp add: run_defs)
  have run: "Process ?b [\<lparr>Item = 1, Weight = 1\<rparr>] ?t =
     Returns (([1, 0, 1, 1, 1, 0], [1, 0, 1, 1, 1, 0], None), tapeOf [])"
    by (simp add: run_defs)
  show ?thesis using new run Process_output_length [OF new run] by simp
qed

subsection \<open>Items without users\<close>

lemma chooseReferrers_orphan:
  assumes "\<forall>it \<in> set items. elem (ItemsToUsers b) it \<noteq> None"
    and "\<exists>it \<in> set items. elem (ItemsToUsers b) it = Some []"
  shows "\<exists>it r'. it \<in> set items \<and> elem (ItemsToUsers b) it = Some [] \<and>
           chooseReferrers b items r = Returns (Inl (fmt_Errorf_no_interaction it), r')"
  using assms
proof (induction items arbitrary: r)
  case Nil
  then show ?case by simp
next
  case (Cons item items)
  from Cons.prems(1) obtain users where us: "elem (ItemsToUsers b) item = Some users"
    by auto
  show ?case
  proof (cases "users = []")
    case True
    then show ?thesis using us by auto
  next
    case False
    then have pos: "0 < int (length users)" by simp
    let ?k = "int (r 0) mod int (length users)"
    have k: "elem users ?k = Some (users ! nat ?k)"
      using pos by (simp add: elem_def)
    have draw: "Intn (int (length users)) r = Returns (?k, advance r)"
      using pos by (simp add: Intn_def)
    from Cons.prems us False have "\<exists>it \<in> set items. elem (ItemsToUsers b) it = Some []"
      by auto
    with Cons.prems(1) obtain it r' where
      it: "it \<in> set items" "elem (ItemsToUsers b) it = Some []" and
      rest: "chooseReferrers b items (advance r) = Returns (Inl (fmt_Errorf_no_interaction it), r')"
      using Cons.IH [of "advance r"] by auto
    have "chooseReferrers b (item # items) r = Returns (Inl (fmt_Errorf_no_interaction it), r')"
      using us False draw k rest by simp
    then show ?thesis using it by auto
  qed
qed

lemma chooseReferrers_Inl:
  "chooseReferrers b items r = Returns (Inl err, r') \<Longrightarrow>
   \<exists>it \<in> set items. elem (ItemsToUsers b) it = Some [] \<and> err = fmt_Errorf_no_interaction it"
proof (induction items arbitrary: r)
  case Nil
  then show ?case by simp
next
  case (Cons item items)
  then show ?case
    by (fastforce split: option.splits if_splits exec.splits sum.splits)
qed

lemma step_orphan:
  assumes "\<forall>it \<in> set items. elem (ItemsToUsers b) it \<noteq> None"
    and "\<exists>it \<in> set items. elem (ItemsToUsers b) it = Some []"
  shows "\<exists>it r'. it \<in> set items \<and> elem (ItemsToUsers b) it = Some [] \<and>
           step b items r = Returns (([], [], Some (fmt_Errorf_no_interaction it)), r')"
proof -
  from chooseReferrers_orphan [OF assms, of r] obtain it r' where
    "it \<in> set items" "elem (ItemsToUsers b) it = Some []"
    "chooseReferrers b items r = Returns (Inl (fmt_Errorf_no_interaction it), r')"
    by blast
  then show ?thesis by (auto simp: step_def)
qed

lemma step_error:
  "step b items r = Returns ((newItems, referrers, Some err), r') \<Longrightarrow>
   \<exists>it \<in> set items. elem (ItemsToUsers b) it = Some [] \<and> err = fmt_Errorf_no_interaction it"
  by (auto simp: step_def split: exec.splits sum.splits dest: chooseReferrers_Inl)

lemma ProcessLoop_orphan:
  assumes "d < Depth (Cfg b)"
    and "\<forall>it \<in> set stepItems. elem (ItemsToUsers b) it \<noteq> None"
    and "\<exists>it \<in> set stepItems. elem (ItemsToUsers b) it = Some []"
  shows "\<exists>it r'. it \<in> set stepItems \<and> elem (ItemsToUsers b) it = Some [] \<and>
           ProcessLoop b stepItems d items referrers r =
             Returns (([], [], Some (errors_Wrap (fmt_Errorf_no_interaction it)
                                       ''cannot step through items'')), r')"
proof -
  from step_orphan [OF assms(2,3), of r] obtain it r' where
    it: "it \<in> set stepItems" "elem (ItemsToUsers b) it = Some []" and
    st: "step b stepItems r = Returns (([], [], Some (fmt_Errorf_no_interaction it)), r')"
    by blast
  have "ProcessLoop b stepItems d items referrers r =
          Returns (([], [], Some (errors_Wrap (fmt_Errorf_no_interaction it)
                                    ''cannot step through items'')), r')"
    using assms(1) st by (simp add: ProcessLoop.simps)
  then show ?thesis using it by blast
qed

lemma seeds_in_range:
  assumes "sampleItemsFromQuery b query r = Returns (Inr seeds, r1)"
    and "it \<in> set seeds"
  shows "elem (ItemsToUsers b) it \<noteq> None"
proof -
  from assms(1) obtain ws s where
    d: "0 \<le> Draws (Cfg b)" and
    fill: "fillSampled b (map Item query) 0 (fst (Sample s (nat (Draws (Cfg b))) r))
       (replicate (nat (Draws (Cfg b))) 0) = Returns seeds" and
    ne: "seeds \<noteq> []"
    by (rule sampleItemsFromQuery_Inr)
  let ?iids = "fst (Sample s (nat (Draws (Cfg b))) r)"
  have len: "length seeds = nat (Draws (Cfg b))" using fillSampled_length [OF fill] by simp
  have leni: "length ?iids = nat (Draws (Cfg b))" by (rule Sample_length)
  have look: "elem (ItemsToUsers b) (map Item query ! (?iids ! j)) \<noteq> None"
    if "j < length seeds" for j
  proof -
    have "?iids ! j \<in> set ?iids" using that len leni by simp
    from fillSampled_lookups [OF fill this] show ?thesis by blast
  qed
  from ne have "0 < length seeds" by simp
  from look [OF this] have "ItemsToUsers b \<noteq> []"
    by (auto simp: elem_def split: if_splits)
  then have zero: "elem (ItemsToUsers b) 0 \<noteq> None" by (simp add: elem_def)
  from assms(2) obtain j where j: "j < length seeds" "it = seeds ! j"
    by (auto simp: in_set_conv_nth)
  have "seeds ! j = (if elem (ItemsToUsers b) (map Item query ! (?iids ! j)) \<noteq> Some []
         then map Item query ! (?iids ! j) else 0)"
    using fillSampled_nth [OF fill, of j] j len leni by simp
  then show ?thesis using j look [OF j(1)] zero by (auto split: if_splits)
qed

text \<open>
  Claim C6. Whatever \<open>Process\<close> returns is either a pair of complete sequences (no error,
  each of length depth times draws) or an error with both sequences nil. And when an item
  of the working set of the hops (the seeds) has an empty list in \<open>ItemsToUsers\<close>, the
  call returns the error of \<open>step\<close> for such an item, wrapped, with both sequences nil.
\<close>

theorem Process_no_partial_results:
  "(Process b query r = Returns ((items, referrers, err), r') \<longrightarrow>
      (err = None \<and>
         length items = nat (Depth (Cfg b)) * nat (Draws (Cfg b)) \<and>
         length referrers = nat (Depth (Cfg b)) * nat (Draws (Cfg b))) \<or>
      (err \<noteq> None \<and> items = [] \<and> referrers = [])) \<and>
   (length query \<noteq> 0 \<and> 0 < Depth (Cfg b) \<and>
    sampleItemsFromQuery b query r = Returns (Inr seeds, r1) \<and>
    (\<exists>it \<in> set seeds. elem (ItemsToUsers b) it = Some []) \<longrightarrow>
      (\<exists>it r2. it \<in> set seeds \<and> elem (ItemsToUsers b) it = Some [] \<and>
         Process b query r =
           Returns (([], [], Some (errors_Wrap (fmt_Errorf_no_interaction it)
                                     ''cannot step through items'')), r2)))"
proof (intro conjI impI)
  assume "Process b query r = Returns ((items, referrers, err), r')"
  then show "(err = None \<and>
         length items = nat (Depth (Cfg b)) * nat (Draws (Cfg b)) \<and>
         length referrers = nat (Depth (Cfg b)) * nat (Draws (Cfg b))) \<or>
      (err \<noteq> None \<and> items = [] \<and> referrers = [])"
    by (rule Process_shape)
next
  assume a: "length query \<noteq> 0 \<and> 0 < Depth (Cfg b) \<and>
    sampleItemsFromQuery b query r = Returns (Inr seeds, r1) \<and>
    (\<exists>it \<in> set seeds. elem (ItemsToUsers b) it = Some [])"
  then have sq: "sampleItemsFromQuery b query r = Returns (Inr seeds, r1)" by simp
  have rng: "\<forall>it \<in> set seeds. elem (ItemsToUsers b) it \<noteq> None"
    using seeds_in_range [OF sq] by blast
  from a have "0 < Depth (Cfg b)" "\<exists>it \<in> set seeds. elem (ItemsToUsers b) it = Some []"
    by simp_all
  from ProcessLoop_orphan [OF this(1) rng this(2), of "[]" "[]" r1]
  obtain it r2 where
    "it \<in> set seeds" "elem (ItemsToUsers b) it = Some []"
    "ProcessLoop b seeds 0 [] [] r1 =
       Returns (([], [], Some (errors_Wrap (fmt_Errorf_no_interaction it)
                                 ''cannot step through items'')), r2)"
    by blast
  moreover have "Process b query r = ProcessLoop b seeds 0 [] [] r1"
    using a by (simp add: Process_def)
  ultimately show "\<exists>it r2. it \<in> set seeds \<and> elem (ItemsToUsers b) it = Some [] \<and>
         Process b query r =
           Returns (([], [], Some (errors_Wrap (fmt_Errorf_no_interaction it)
                                     ''cannot step through items'')), r2)"
    by auto
qed

theorem Process_no_partial_results_witness:
  "Process \<lparr>Cfg = \<lparr>Depth = 2, Draws = 1\<rparr>, ItemWeights = [1, 1], UsersToItems = [[1]],
            ItemsToUsers = [[], [0]], UserItemsSamplers = [AliasSampler [1]]\<rparr>
     [\<lparr>Item = 0, Weight = 1\<rparr>] (tapeOf [0])
   = Returns (([], [], Some (errors_Wrap (fmt_Errorf_no_interaction 0)
                               ''cannot step through items'')), tapeOf []) \<and>
   sampleItemsFromQuery
     \<lparr>Cfg = \<lparr>Depth = 2, Draws = 1\<rparr>, ItemWeights = [1, 1], UsersToItems = [[1]],
      ItemsToUsers = [[], [0]], UserItemsSamplers = [AliasSampler [1]]\<rparr>
     [\<lparr>Item = 0, Weight = 1\<rparr>] (tapeOf [0]) = Returns (Inr [0], tapeOf []) \<and>
   elem [[], [0 :: int]] 0 = Some []"
proof -
  let ?b = "\<lparr>Cfg = \<lparr>Depth = 2, Draws = 1\<rparr>, ItemWeights = [1, 1], UsersToItems = [[1]],
            ItemsToUsers = [[], [0]], UserItemsSamplers = [AliasSampler [1]]\<rparr>"
  let ?q = "[\<lparr>Item = 0, Weight = 1\<rparr>]"
  let ?e = "errors_Wrap (fmt_Errorf_no_interaction 0) ''cannot step through items''"
  have seeds: "sampleItemsFromQuery ?b ?q (tapeOf [0]) = Returns (Inr [0], tapeOf [])"
    by (simp add: run_defs)
  have run: "Process ?b ?q (tapeOf [0]) = Returns (([], [], Some ?e), tapeOf [])"
    by (simp add: run_defs)
  have orphan: "elem [[], [0 :: int]] 0 = Some []" by (simp add: elem_def)
  show ?thesis
    using seeds run orphan
      Process_no_partial_results [of ?b ?q "tapeOf [0]" "[]" "[]" "Some ?e" "tapeOf []"
        "[0]" "tapeOf []"]
    by simp
qed

subsection \<open>Invalid seeds\<close>

lemma sampleItemsFromQuery_no_items_error:
  assumes "0 < Draws (Cfg b)"
  shows "sampleItemsFromQuery b query r \<noteq>
           Returns (Inl (errors_New
             ''no items were sampled,check that the query refers to actual items.''), r')"
proof
  assume a: "sampleItemsFromQuery b query r =
           Returns (Inl (errors_New
             ''no items were sampled,check that the query refers to actual items.''), r')"
  then obtain ws items s out where
    "queryTables b query = Returns (ws, items)" "NewAliasSampler ws = Inr s"
    "fillSampled b items 0 (fst (Sample s (nat (Draws (Cfg b))) r))
       (replicate (nat (Draws (Cfg b))) 0) = Returns out" "length out = 0"
    by (auto simp: sampleItemsFromQuery_def case_prod_beta
        split: exec.splits sum.splits if_splits)
  then show False using fillSampled_length assms by fastforce
qed

text \<open>
  Claim C2, at an input where it fails. The walker is built from two items and one user
  who holds item 0; the query names item 1 only, which no user holds. The one sampled
  seed position is 0 (the query has one entry), its item has an empty list in
  \<open>ItemsToUsers\<close>, so every sampled seed is invalid. \<open>Process\<close> returns no error: the
  slot keeps the default 0 and the walk starts from item 0.
\<close>

theorem Process_all_seeds_invalid:
  "NewBird newRand now \<lparr>Depth = 1, Draws = 1\<rparr> [1, 1] [[0]] =
     Returns (Inr (\<lparr>Cfg = \<lparr>Depth = 1, Draws = 1\<rparr>, ItemWeights = [1, 1],
                    UsersToItems = [[0]], ItemsToUsers = [[0], []],
                    UserItemsSamplers = [AliasSampler [1]]\<rparr>, newRand now)) \<and>
   seedPositions
     \<lparr>Cfg = \<lparr>Depth = 1, Draws = 1\<rparr>, ItemWeights = [1, 1], UsersToItems = [[0]],
      ItemsToUsers = [[0], []], UserItemsSamplers = [AliasSampler [1]]\<rparr>
     [\<lparr>Item = 1, Weight = 1\<rparr>] r = [0] \<and>
   elem [[0], [] :: int list] 1 = Some [] \<and>
   Process
     \<lparr>Cfg = \<lparr>Depth = 1, Draws = 1\<rparr>, ItemWeights = [1, 1], UsersToItems = [[0]],
      ItemsToUsers = [[0], []], UserItemsSamplers = [AliasSampler [1]]\<rparr>
     [\<lparr>Item = 1, Weight = 1\<rparr>] r =
     Returns (([0], [0], None), advance (advance (advance r)))"
  by (simp add: run_defs seedPositions_def)

theorem Process_all_seeds_invalid_witness:
  "Process
     \<lparr>Cfg = \<lparr>Depth = 1, Draws = 1\<rparr>, ItemWeights = [1, 1], UsersToItems = [[0]],
      ItemsToUsers = [[0], []], UserItemsSamplers = [AliasSampler [1]]\<rparr>
     [\<lparr>Item = 1, Weight = 1\<rparr>] (tapeOf [5, 3, 4]) =
     Returns (([0], [0], None), tapeOf [])"
  using Process_all_seeds_invalid [of "\<lambda>seed. tapeOf []" 0 "tapeOf [5, 3, 4]"]
  by simp

subsection \<open>The working set of the hops\<close>

lemma ProcessLoop_two_hops:
  assumes "Depth (Cfg b) = 2"
    and "step b stepItems r = Returns ((items1, referrers1, None), r1)"
    and "step b stepItems r1 = Returns ((items2, referrers2, None), r2)"
  shows "ProcessLoop b stepItems 0 [] [] r =
           Returns ((items1 @ items2, referrers1 @ referrers2, None), r2)"
  using assms by (simp add: ProcessLoop.simps)

text \<open>
  Claim C1, at an input where it fails. The walker has depth 2 and one draw; user 0
  holds items 0 and 1, user 1 holds items 0 and 2; the query names item 0. With the
  generator returning 0, 0, 1, 1, 1 the first hop goes from the seed 0 over user 0 to
  item 1. The second hop runs \<open>step\<close> on the seed \<open>[0]\<close> again, not on \<open>[1]\<close>: it picks
  user 1 and reaches item 2, although user 1 is not in the list of item 1. On \<open>[1]\<close> the
  same generator would have given user 0 and item 1.
\<close>

theorem Process_hops_restart_from_seeds:
  "NewBird (\<lambda>seed. tapeOf [0, 0, 1, 1, 1]) now \<lparr>Depth = 2, Draws = 1\<rparr> [1, 1, 1]
     [[0, 1], [0, 2]] =
     Returns (Inr (\<lparr>Cfg = \<lparr>Depth = 2, Draws = 1\<rparr>, ItemWeights = [1, 1, 1],
                    UsersToItems = [[0, 1], [0, 2]], ItemsToUsers = [[0, 1], [0], [1]],
                    UserItemsSamplers = [AliasSampler [1, 1], AliasSampler [1, 1]]\<rparr>,
                   tapeOf [0, 0, 1, 1, 1])) \<and>
   sampleItemsFromQuery
     \<lparr>Cfg = \<lparr>Depth = 2, Draws = 1\<rparr>, ItemWeights = [1, 1, 1],
      UsersToItems = [[0, 1], [0, 2]], ItemsToUsers = [[0, 1], [0], [1]],
      UserItemsSamplers = [AliasSampler [1, 1], AliasSampler [1, 1]]\<rparr>
     [\<lparr>Item = 0, Weight = 1\<rparr>] (tapeOf [0, 0, 1, 1, 1]) =
     Returns (Inr [0], tapeOf [0, 1, 1, 1]) \<and>
   step
     \<lparr>Cfg = \<lparr>Depth = 2, Draws = 1\<rparr>, ItemWeights = [1, 1, 1],
      UsersToItems = [[0, 1], [0, 2]], ItemsToUsers = [[0, 1], [0], [1]],
      UserItemsSamplers = [AliasSampler [1, 1], AliasSampler [1, 1]]\<rparr>
     [0] (tapeOf [0, 1, 1, 1]) = Returns (([1], [0], None), tapeOf [1, 1]) \<and>
   step
     \<lparr>Cfg = \<lparr>Depth = 2, Draws = 1\<rparr>, ItemWeights = [1, 1, 1],
      UsersToItems = [[0, 1], [0, 2]], ItemsToUsers = [[0, 1], [0], [1]],
      UserItemsSamplers = [AliasSampler [1, 1], AliasSampler [1, 1]]\<rparr>
     [0] (tapeOf [1, 1]) = Returns (([2], [1], None), tapeOf []) \<and>
   step
     \<lparr>Cfg = \<lparr>Depth = 2, Draws = 1\<rparr>, ItemWeights = [1, 1, 1],
      UsersToItems = [[0, 1], [0, 2]], ItemsToUsers = [[0, 1], [0], [1]],
      UserItemsSamplers = [AliasSampler [1, 1], AliasSampler [1, 1]]\<rparr>
     [1] (tapeOf [1, 1]) = Returns (([1], [0], None), tapeOf []) \<and>
   Process
     \<lparr>Cfg = \<lparr>Depth = 2, Draws = 1\<rparr>, ItemWeights = [1, 1, 1],
      UsersToItems = [[0, 1], [0, 2]], ItemsToUsers = [[0, 1], [0], [1]],
      UserItemsSamplers = [AliasSampler [1, 1], AliasSampler [1, 1]]\<rparr>
     [\<lparr>Item = 0, Weight = 1\<rparr>] (tapeOf [0, 0, 1, 1, 1]) =
     Returns (([1, 2], [0, 1], None), tapeOf []) \<and>
   1 \<notin> set ([[0, 1], [0], [1 :: int]] ! 1)"
  by (simp add: run_defs)

theorem Process_hops_restart_from_seeds_witness:
  "Process
     \<lparr>Cfg = \<lparr>Depth = 2, Draws = 1\<rparr>, ItemWeights = [1, 1, 1],
      UsersToItems = [[0, 1], [0, 2]], ItemsToUsers = [[0, 1], [0], [1]],
      UserItemsSamplers = [AliasSampler [1, 1], AliasSampler [1, 1]]\<rparr>
     [\<lparr>Item = 0, Weight = 1\<rparr>] (tapeOf [0, 0, 1, 1, 1]) =
     Returns (([1, 2], [0, 1], None), tapeOf [])"
  using Process_hops_restart_from_seeds [of 0]
  by simp

subsection \<open>Checks and samplers of the construction\<close>

lemma fold_max_ge: "m \<le> fold (\<lambda>item m. if item > m then item else m) xs (m :: int)"
proof (induction xs arbitrary: m)
  case Nil
  then show ?case by simp
next
  case (Cons x xs)
  show ?case using Cons.IH [of x] Cons.IH [of m] by auto
qed

lemma fold_max_ge_elem:
  "x \<in> set xs \<Longrightarrow> x \<le> fold (\<lambda>item m. if item > m then item else m) xs (m :: int)"
proof (induction xs arbitrary: m)
  case Nil
  then show ?case by simp
next
  case (Cons y xs)
  show ?case
  proof (cases "x = y")
    case True
    then show ?thesis using fold_max_ge [of y xs] fold_max_ge [of m xs] by auto
  next
    case False
    then show ?thesis using Cons by auto
  qed
qed

lemma fold_max_in:
  "fold (\<lambda>item m. if item > m then item else m) xs (m :: int) \<in> insert m (set xs)"
proof (induction xs arbitrary: m)
  case Nil
  then show ?case by simp
next
  case (Cons y xs)
  show ?case using Cons.IH [of y] Cons.IH [of m] by auto
qed

lemma fold_users_ge:
  "m \<le> fold (\<lambda>userItems m. fold (\<lambda>item m. if item > m then item else m) userItems m)
          xss (m :: int)"
proof (induction xss arbitrary: m)
  case Nil
  then show ?case by simp
next
  case (Cons xs xss)
  have "m \<le> fold (\<lambda>item m. if item > m then item else m) xs m" by (rule fold_max_ge)
  also have "\<dots> \<le> fold (\<lambda>userItems m. fold (\<lambda>item m. if item > m then item else m) userItems m)
          xss (fold (\<lambda>item m. if item > m then item else m) xs m)" by (rule Cons.IH)
  finally show ?case by simp
qed

lemma fold_users_ge_elem:
  "xs \<in> set xss \<Longrightarrow> x \<in> set xs \<Longrightarrow>
   x \<le> fold (\<lambda>userItems m. fold (\<lambda>item m. if item > m then item else m) userItems m)
          xss (m :: int)"
proof (induction xss arbitrary: m)
  case Nil
  then show ?case by simp
next
  case (Cons ys xss)
  show ?case
  proof (cases "xs = ys")
    case True
    have "x \<le> fold (\<lambda>item m. if item > m then item else m) ys m"
      using Cons.prems(2) True by (simp add: fold_max_ge_elem)
    also have "\<dots> \<le> fold (\<lambda>userItems m. fold (\<lambda>item m. if item > m then item else m) userItems m)
          xss (fold (\<lambda>item m. if item > m then item else m) ys m)" by (rule fold_users_ge)
    finally show ?thesis by simp
  next
    case False
    then show ?thesis using Cons by auto
  qed
qed

lemma fold_users_in:
  "fold (\<lambda>userItems m. fold (\<lambda>item m. if item > m then item else m) userItems m)
          xss (m :: int) \<in> insert m (\<Union> (set ` set xss))"
proof (induction xss arbitrary: m)
  case Nil
  then show ?case by simp
next
  case (Cons xs xss)
  show ?case
    using Cons.IH [of "fold (\<lambda>item m. if item > m then item else m) xs m"]
      fold_max_in [of xs m]
    by auto
qed

lemma maxItem_le_iff:
  assumes "0 < n"
  shows "n \<le> maxItem usersToItems \<longleftrightarrow>
         (\<exists>userItems \<in> set usersToItems. \<exists>item \<in> set userItems. n \<le> item)"
proof
  assume a: "n \<le> maxItem usersToItems"
  have "maxItem usersToItems \<in> insert 0 (\<Union> (set ` set usersToItems))"
    unfolding maxItem_def by (rule fold_users_in)
  with a assms show "\<exists>userItems \<in> set usersToItems. \<exists>item \<in> set userItems. n \<le> item"
    by auto
next
  assume "\<exists>userItems \<in> set usersToItems. \<exists>item \<in> set userItems. n \<le> item"
  then obtain userItems item where
    "userItems \<in> set usersToItems" "item \<in> set userItems" "n \<le> item" by blast
  then show "n \<le> maxItem usersToItems"
    unfolding maxItem_def using fold_users_ge_elem [of userItems usersToItems item 0]
    by simp
qed

lemma validateBirdInputs_Some_iff:
  "validateBirdInputs itemWeights usersToItems \<noteq> None \<longleftrightarrow>
     length itemWeights = 0 \<or> length usersToItems = 0 \<or>
     (\<exists>userItems \<in> set usersToItems. \<exists>item \<in> set userItems.
        int (length itemWeights) \<le> item)"
proof (cases "length itemWeights = 0 \<or> length usersToItems = 0")
  case True
  then show ?thesis by (auto simp: validateBirdInputs_def)
next
  case False
  then have "0 < int (length itemWeights)" by simp
  from maxItem_le_iff [OF this, of usersToItems] False
  show ?thesis by (simp add: validateBirdInputs_def)
qed

lemma userWeights_returns:
  "\<forall>item \<in> set userItems. 0 \<le> item \<and> item < int (length itemWeights) \<Longrightarrow>
   \<exists>ws. userWeights itemWeights userItems = Returns ws"
proof (induction userItems)
  case Nil
  then show ?case by simp
next
  case (Cons item userItems)
  then obtain ws where "userWeights itemWeights userItems = Returns ws" by auto
  moreover have "elem itemWeights item = Some (itemWeights ! nat item)"
    using Cons.prems by (simp add: elem_def)
  ultimately show ?case by simp
qed

lemma userWeights_Returns:
  "userWeights itemWeights userItems = Returns ws \<Longrightarrow>
   length ws = length userItems \<and>
   (\<forall>item \<in> set userItems. 0 \<le> item \<and> item < int (length itemWeights))"
proof (induction userItems arbitrary: ws)
  case Nil
  then show ?case by simp
next
  case (Cons item userItems)
  then show ?case
    by (auto split: option.splits exec.splits simp: elem_Some_iff)
qed

lemma initUserItemsSamplers_returns:
  "\<forall>userItems \<in> set usersToItems. \<forall>item \<in> set userItems.
      0 \<le> item \<and> item < int (length itemWeights) \<Longrightarrow>
   \<exists>res. initUserItemsSamplers itemWeights usersToItems = Returns res"
proof (induction usersToItems)
  case Nil
  then show ?case by simp
next
  case (Cons userItems usersToItems)
  then obtain res where rest: "initUserItemsSamplers itemWeights usersToItems = Returns res"
    by auto
  from Cons.prems obtain ws where ws: "userWeights itemWeights userItems = Returns ws"
    using userWeights_returns [of userItems itemWeights] by auto
  show ?case using rest ws by (cases res; cases "NewAliasSampler ws") simp_all
qed

lemma initUserItemsSamplers_Inr:
  "initUserItemsSamplers itemWeights usersToItems = Returns (Inr samplers) \<Longrightarrow>
   length samplers = length usersToItems \<and>
   (\<forall>u < length usersToItems.
      length (samplerWeights (samplers ! u)) = length (usersToItems ! u) \<and>
      0 < length (usersToItems ! u)) \<and>
   (\<forall>userItems \<in> set usersToItems. \<forall>item \<in> set userItems.
      0 \<le> item \<and> item < int (length itemWeights))"
proof (induction usersToItems arbitrary: samplers)
  case Nil
  then show ?case by simp
next
  case (Cons userItems usersToItems)
  from Cons.prems obtain ws s rest where
    ws: "userWeights itemWeights userItems = Returns ws" and
    s: "NewAliasSampler ws = Inr s" and
    rest: "initUserItemsSamplers itemWeights usersToItems = Returns (Inr rest)" and
    eq: "samplers = s # rest"
    by (auto split: exec.splits sum.splits)
  note ih = Cons.IH [OF rest]
  have a: "length ws = length userItems"
    "\<forall>item \<in> set userItems. 0 \<le> item \<and> item < int (length itemWeights)"
    using userWeights_Returns [OF ws] by simp_all
  have b: "samplerWeights s = ws" "0 < length ws"
    using NewAliasSampler_Inr [OF s] by simp_all
  have "length (samplerWeights (samplers ! u)) = length ((userItems # usersToItems) ! u) \<and>
      0 < length ((userItems # usersToItems) ! u)"
    if "u < length (userItems # usersToItems)" for u
    using that ih a b eq by (cases u) auto
  then show ?case using ih a eq by auto
qed

subsection \<open>The checks of NewBird\<close>

lemma NewBird_checks_pass:
  assumes "\<not> Depth cfg < 1" "\<not> Draws cfg < 1"
    and "validateBirdInputs itemWeights usersToItems = None"
  shows "NewBird newRand now cfg itemWeights usersToItems =
     (case initUserItemsSamplers itemWeights usersToItems of
        Panics p \<Rightarrow> Panics p
      | Returns (Inl err) \<Rightarrow> Returns (Inl (errors_Wrap err ''cannot initialize samplers''))
      | Returns (Inr userItemsSampler) \<Rightarrow>
          (case permuteAdjacencyList (int (length itemWeights)) usersToItems of
             Panics p \<Rightarrow> Panics p
           | Returns itemsToUsers \<Rightarrow>
               Returns (Inr (\<lparr>Cfg = cfg, ItemWeights = itemWeights,
                              UsersToItems = usersToItems, ItemsToUsers = itemsToUsers,
                              UserItemsSamplers = userItemsSampler\<rparr>, newRand now))))"
  using assms by (simp add: NewBird_def)

lemma NewBird_check_error_iff:
  "(\<exists>err. NewBird newRand now cfg itemWeights usersToItems = Returns (Inl err) \<and>
          validationError err) \<longleftrightarrow>
   (Depth cfg < 1 \<or> Draws cfg < 1 \<or>
    validateBirdInputs itemWeights usersToItems \<noteq> None)"
proof (cases "Depth cfg < 1 \<or> Draws cfg < 1")
  case True
  then show ?thesis by (auto simp: NewBird_def)
next
  case False
  show ?thesis
  proof (cases "validateBirdInputs itemWeights usersToItems")
    case (Some e)
    then show ?thesis using False by (simp add: NewBird_def)
  next
    case None
    have "\<not> validationError err"
      if "NewBird newRand now cfg itemWeights usersToItems = Returns (Inl err)" for err
      using that False None
      by (auto simp: NewBird_checks_pass split: exec.splits sum.splits)
    then show ?thesis using False None by auto
  qed
qed

text \<open>
  What the checks of \<open>NewBird\<close> do. It returns an error of its checks exactly when the
  depth or the draws are below 1, a table is empty, or an item of \<open>usersToItems\<close> is at
  least the number of weights. When none of these holds and no item of \<open>usersToItems\<close> is
  negative, either a sampler's construction failed and its error is returned wrapped, or
  the walker is returned.
\<close>

lemma NewBird_checks:
  "((\<exists>err. NewBird newRand now cfg itemWeights usersToItems = Returns (Inl err) \<and>
           validationError err) \<longleftrightarrow>
    (Depth cfg < 1 \<or> Draws cfg < 1 \<or> length itemWeights = 0 \<or> length usersToItems = 0 \<or>
     (\<exists>userItems \<in> set usersToItems. \<exists>item \<in> set userItems.
        int (length itemWeights) \<le> item))) \<and>
   (\<not> (Depth cfg < 1 \<or> Draws cfg < 1 \<or> length itemWeights = 0 \<or>
        length usersToItems = 0 \<or>
        (\<exists>userItems \<in> set usersToItems. \<exists>item \<in> set userItems.
           int (length itemWeights) \<le> item)) \<and>
    (\<forall>userItems \<in> set usersToItems. \<forall>item \<in> set userItems. 0 \<le> item) \<longrightarrow>
      (\<exists>err. initUserItemsSamplers itemWeights usersToItems = Returns (Inl err) \<and>
             NewBird newRand now cfg itemWeights usersToItems =
               Returns (Inl (errors_Wrap err ''cannot initialize samplers''))) \<or>
      (\<exists>b. NewBird newRand now cfg itemWeights usersToItems = Returns (Inr (b, newRand now)) \<and>
           Cfg b = cfg \<and> ItemWeights b = itemWeights \<and> UsersToItems b = usersToItems))"
proof (intro conjI impI)
  show "(\<exists>err. NewBird newRand now cfg itemWeights usersToItems = Returns (Inl err) \<and>
           validationError err) \<longleftrightarrow>
    (Depth cfg < 1 \<or> Draws cfg < 1 \<or> length itemWeights = 0 \<or> length usersToItems = 0 \<or>
     (\<exists>userItems \<in> set usersToItems. \<exists>item \<in> set userItems.
        int (length itemWeights) \<le> item))"
    unfolding NewBird_check_error_iff validateBirdInputs_Some_iff by blast
next
  assume a: "\<not> (Depth cfg < 1 \<or> Draws cfg < 1 \<or> length itemWeights = 0 \<or>
        length usersToItems = 0 \<or>
        (\<exists>userItems \<in> set usersToItems. \<exists>item \<in> set userItems.
           int (length itemWeights) \<le> item)) \<and>
    (\<forall>userItems \<in> set usersToItems. \<forall>item \<in> set userItems. 0 \<le> item)"
  then have cfg: "\<not> Depth cfg < 1" "\<not> Draws cfg < 1" by simp_all
  from a have v: "validateBirdInputs itemWeights usersToItems = None"
    using validateBirdInputs_Some_iff [of itemWeights usersToItems] by blast
  from a have rng: "\<forall>userItems \<in> set usersToItems. \<forall>item \<in> set userItems.
      0 \<le> item \<and> item < int (length itemWeights)"
    by (meson not_le)
  from initUserItemsSamplers_returns [OF rng] obtain res where
    res: "initUserItemsSamplers itemWeights usersToItems = Returns res" by blast
  from rng have "\<forall>userItems \<in> set usersToItems. \<forall>i \<in> set userItems.
      0 \<le> i \<and> i < int (length (replicate (length itemWeights) ([] :: int list)))"
    by simp
  from permuteUsers_returns [OF this, of 0] obtain itemsToUsers where
    "permuteUsers 0 usersToItems (replicate (length itemWeights) []) = Returns itemsToUsers"
    by blast
  then have perm: "permuteAdjacencyList (int (length itemWeights)) usersToItems =
      Returns itemsToUsers"
    by (simp add: permuteAdjacencyList_def)
  show "(\<exists>err. initUserItemsSamplers itemWeights usersToItems = Returns (Inl err) \<and>
             NewBird newRand now cfg itemWeights usersToItems =
               Returns (Inl (errors_Wrap err ''cannot initialize samplers''))) \<or>
      (\<exists>b. NewBird newRand now cfg itemWeights usersToItems = Returns (Inr (b, newRand now)) \<and>
           Cfg b = cfg \<and> ItemWeights b = itemWeights \<and> UsersToItems b = usersToItems)"
    using res perm by (cases res) (simp_all add: NewBird_checks_pass [OF cfg v])
qed

text \<open>
  Claim C8, at an input where it fails. For the weights \<open>[1]\<close> and the adjacency
  \<open>[[-1]]\<close> none of the five conditions holds, and \<open>validateBirdInputs\<close>, which
  compares only the largest item with the number of weights, reports nothing. No sampler's
  construction fails either, and yet no walker is produced: reading \<open>itemWeights[-1]\<close> in
  \<open>initUserItemsSamplers\<close> panics before any sampler is constructed.
\<close>

theorem NewBird_negative_item_panics:
  "\<not> (Depth \<lparr>Depth = 1, Draws = 1\<rparr> < 1 \<or> Draws \<lparr>Depth = 1, Draws = 1\<rparr> < 1 \<or>
      length [1 :: real] = 0 \<or> length [[- 1 :: int]] = 0 \<or>
      (\<exists>userItems \<in> set [[- 1]]. \<exists>item \<in> set userItems. int (length [1 :: real]) \<le> item)) \<and>
   validateBirdInputs [1] [[- 1]] = None \<and>
   userWeights [1] [- 1] = Panics IndexOutOfRange \<and>
   NewBird newRand now \<lparr>Depth = 1, Draws = 1\<rparr> [1] [[- 1]] = Panics IndexOutOfRange"
  by (simp add: run_defs)

theorem NewBird_negative_item_panics_witness:
  "NewBird (\<lambda>seed. tapeOf []) 0 \<lparr>Depth = 1, Draws = 1\<rparr> [1] [[- 1]] = Panics IndexOutOfRange"
  using NewBird_negative_item_panics [of "\<lambda>seed. tapeOf []" 0]
  by simp

subsection \<open>A sampler that cannot be constructed\<close>

lemma initUserItemsSamplers_first_failure:
  assumes "initUserItemsSamplers itemWeights before = Returns (Inr samplers)"
    and "userWeights itemWeights userItems = Returns ws"
    and "NewAliasSampler ws = Inl cause"
  shows "initUserItemsSamplers itemWeights (before @ userItems # after) =
           Returns (Inl (errors_Wrap cause
             ''could not initialize the probability and alias tables''))"
  using assms(1)
proof (induction before arbitrary: samplers)
  case Nil
  then show ?case using assms(2,3) by simp
next
  case (Cons a before)
  from Cons.prems obtain ws' s rest where
    "userWeights itemWeights a = Returns ws'" "NewAliasSampler ws' = Inr s"
    "initUserItemsSamplers itemWeights before = Returns (Inr rest)"
    by (auto split: exec.splits sum.splits)
  then show ?case using Cons.IH [of rest] by simp
qed

text \<open>
  Claim C7 as stated fails: the error of \<open>NewBird\<close> is the same whether the sampler of
  user 0 or the sampler of user 1 cannot be constructed (here for an empty collection),
  so it does not tell the user.
\<close>

theorem NewBird_sampler_error_without_user:
  "NewAliasSampler [] = Inl EmptyDistribution \<and>
   NewBird (\<lambda>seed. tapeOf []) 0 \<lparr>Depth = 1, Draws = 1\<rparr> [1] [[], [0]] =
     Returns (Inl (errors_Wrap
       (errors_Wrap EmptyDistribution ''could not initialize the probability and alias tables'')
       ''cannot initialize samplers'')) \<and>
   NewBird (\<lambda>seed. tapeOf []) 0 \<lparr>Depth = 1, Draws = 1\<rparr> [1] [[0], []] =
     Returns (Inl (errors_Wrap
       (errors_Wrap EmptyDistribution ''could not initialize the probability and alias tables'')
       ''cannot initialize samplers''))"
  by (simp add: run_defs)

text \<open>
  Claim C7, as amended. When the configuration and the input pass the checks, the
  samplers of the users before some user are constructed and the construction for that
  user's collection fails with the error \<open>cause\<close>, \<open>NewBird\<close> returns \<open>cause\<close> wrapped
  twice, by \<open>initUserItemsSamplers\<close> and by \<open>NewBird\<close>. The error is the same for every
  position of the user: it carries no index.
\<close>

theorem NewBird_sampler_failure:
  assumes "\<not> Depth cfg < 1" and "\<not> Draws cfg < 1"
    and "validateBirdInputs itemWeights (before @ userItems # after) = None"
    and "initUserItemsSamplers itemWeights before = Returns (Inr samplers)"
    and "userWeights itemWeights userItems = Returns ws"
    and "NewAliasSampler ws = Inl cause"
  shows "NewBird newRand now cfg itemWeights (before @ userItems # after) =
           Returns (Inl (errors_Wrap
             (errors_Wrap cause ''could not initialize the probability and alias tables'')
             ''cannot initialize samplers''))"
  using initUserItemsSamplers_first_failure [OF assms(4,5,6), of after]
  by (simp add: NewBird_checks_pass [OF assms(1,2,3)])

theorem NewBird_sampler_failure_witness:
  "NewBird (\<lambda>seed. tapeOf []) 0 \<lparr>Depth = 1, Draws = 1\<rparr> [1, 0] [[0], [1, 1], [0]] =
     Returns (Inl (errors_Wrap
       (errors_Wrap InvalidWeight ''could not initialize the probability and alias tables'')
       ''cannot initialize samplers''))"
proof -
  have cfg: "\<not> Depth \<lparr>Depth = 1, Draws = 1\<rparr> < 1" "\<not> Draws \<lparr>Depth = 1, Draws = 1\<rparr> < 1"
    by simp_all
  have v: "validateBirdInputs [1, 0] ([[0]] @ [1, 1] # [[0]]) = None"
    by (simp add: run_defs)
  have before: "initUserItemsSamplers [1, 0] [[0]] = Returns (Inr [AliasSampler [1]])"
    by (simp add: run_defs)
  have ws: "userWeights [1, 0] [1, 1] = Returns [0, 0]"
    by (simp add: run_defs)
  have fail: "NewAliasSampler [0, 0] = Inl InvalidWeight"
    by (simp add: run_defs)
  show ?thesis
    using NewBird_sampler_failure [OF cfg v before ws fail, of "\<lambda>seed. tapeOf []" 0]
    by simp
qed

subsection \<open>Index safety\<close>

lemma NewBird_wellFormed:
  assumes "NewBird newRand now cfg itemWeights usersToItems = Returns (Inr (b, r0))"
  shows "wellFormed b"
proof -
  note nb = NewBird_Inr [OF assms]
  have perm: "permuteUsers 0 usersToItems (replicate (length itemWeights) []) =
      Returns (ItemsToUsers b)"
    using nb(9) by (simp add: permuteAdjacencyList_def)
  have len: "length (ItemsToUsers b) = length itemWeights"
    using permuteUsers_length [OF perm] by simp
  have users: "0 \<le> u \<and> u < int (length usersToItems)"
    if "users \<in> set (ItemsToUsers b)" "u \<in> set users" for users u
  proof -
    from that(1) obtain i where i: "i < length (ItemsToUsers b)" "users = ItemsToUsers b ! i"
      by (auto simp: in_set_conv_nth)
    have "count_list (ItemsToUsers b ! i) u =
      (if 0 \<le> u \<and> u < 0 + int (length usersToItems)
        then count_list (usersToItems ! nat (u - 0)) (int i) else 0)"
      using permuteUsers_count [OF perm, of i u] i len by simp
    moreover have "count_list (ItemsToUsers b ! i) u \<noteq> 0"
      using that(2) i by (simp add: count_list_0_iff)
    ultimately show ?thesis by (auto split: if_splits)
  qed
  show ?thesis
    unfolding wellFormed_def
    using nb(1-5) len users initUserItemsSamplers_Inr [OF nb(8)] by auto
qed

lemma sampleItem_returns:
  assumes "wellFormed b" and "0 \<le> user" and "user < int (length (UsersToItems b))"
  shows "\<exists>res. sampleItem b user r = Returns res"
proof -
  let ?s = "UserItemsSamplers b ! nat user"
  let ?items = "UsersToItems b ! nat user"
  have u: "nat user < length (UsersToItems b)" using assms(2,3) by simp
  have s: "elem (UserItemsSamplers b) user = Some ?s"
    using assms by (simp add: elem_def wellFormed_def)
  have items: "elem (UsersToItems b) user = Some ?items"
    using assms by (simp add: elem_def)
  have n: "length (samplerWeights ?s) = length ?items" "0 < length ?items"
    using assms(1) u by (auto simp: wellFormed_def)
  have draw: "Sample ?s 1 r = ([r 0 mod length ?items], advance r)"
    using n by simp
  have "r 0 mod length ?items < length ?items" using n by simp
  then have k: "elem ?items (int (r 0 mod length ?items)) \<noteq> None"
    by (simp add: elem_def)
  show ?thesis using s items draw k by (auto simp: sampleItem_def)
qed

lemma drawNewItems_returns:
  assumes "wellFormed b"
  shows "\<forall>u \<in> set referrers. 0 \<le> u \<and> u < int (length (UsersToItems b)) \<Longrightarrow>
         \<exists>res. drawNewItems b referrers r = Returns res"
proof (induction referrers arbitrary: r)
  case Nil
  then show ?case by simp
next
  case (Cons user referrers)
  from Cons.prems obtain it r1 where one: "sampleItem b user r = Returns (it, r1)"
    using sampleItem_returns [OF assms, of user r] by auto
  from Cons obtain res where "drawNewItems b referrers r1 = Returns res" by fastforce
  then show ?case using one by (cases res) simp
qed

lemma chooseReferrers_returns:
  assumes "wellFormed b"
  shows "\<forall>it \<in> set items. elem (ItemsToUsers b) it \<noteq> None \<Longrightarrow>
         \<exists>res r'. chooseReferrers b items r = Returns (res, r') \<and>
           (\<forall>referrers. res = Inr referrers \<longrightarrow>
              (\<forall>u \<in> set referrers. 0 \<le> u \<and> u < int (length (UsersToItems b))))"
proof (induction items arbitrary: r)
  case Nil
  then show ?case by simp
next
  case (Cons item items)
  from Cons.prems obtain users where us: "elem (ItemsToUsers b) item = Some users"
    by auto
  then have mem: "users \<in> set (ItemsToUsers b)"
    by (auto simp: elem_Some_iff)
  show ?case
  proof (cases "users = []")
    case True
    then show ?thesis using us by simp
  next
    case False
    then have pos: "0 < int (length users)" by simp
    let ?k = "int (r 0) mod int (length users)"
    have k: "elem users ?k = Some (users ! nat ?k)"
      using pos by (simp add: elem_def)
    have "nat ?k < length users" using pos
      by (metis k elem_Some_iff nat_less_iff)
    then have "users ! nat ?k \<in> set users" by simp
    with mem assms have valid:
      "0 \<le> users ! nat ?k \<and> users ! nat ?k < int (length (UsersToItems b))"
      by (auto simp: wellFormed_def)
    have draw: "Intn (int (length users)) r = Returns (?k, advance r)"
      using pos by (simp add: Intn_def)
    from Cons obtain res r' where
      rest: "chooseReferrers b items (advance r) = Returns (res, r')" and
      ok: "\<forall>referrers. res = Inr referrers \<longrightarrow>
              (\<forall>u \<in> set referrers. 0 \<le> u \<and> u < int (length (UsersToItems b)))"
      by fastforce
    show ?thesis using us False draw k rest ok valid by (cases res) auto
  qed
qed

lemma step_returns:
  assumes "wellFormed b" and "\<forall>it \<in> set items. elem (ItemsToUsers b) it \<noteq> None"
  shows "\<exists>res. step b items r = Returns res"
proof -
  from chooseReferrers_returns [OF assms, of r] obtain res r' where
    cr: "chooseReferrers b items r = Returns (res, r')" and
    ok: "\<forall>referrers. res = Inr referrers \<longrightarrow>
              (\<forall>u \<in> set referrers. 0 \<le> u \<and> u < int (length (UsersToItems b)))"
    by blast
  show ?thesis
  proof (cases res)
    case (Inl e)
    then show ?thesis using cr by (simp add: step_def)
  next
    case (Inr referrers)
    with ok obtain out where "drawNewItems b referrers r' = Returns out"
      using drawNewItems_returns [OF assms(1), of referrers r'] by auto
    then show ?thesis using cr Inr by (cases out) (simp add: step_def)
  qed
qed

lemma ProcessLoop_returns:
  assumes "wellFormed b" and "\<forall>it \<in> set stepItems. elem (ItemsToUsers b) it \<noteq> None"
  shows "\<exists>res. ProcessLoop b stepItems d items referrers r = Returns res"
  using assms
proof (induction b stepItems d items referrers r rule: ProcessLoop.induct)
  case (1 b stepItems d items referrers r)
  show ?case
  proof (cases "d < Depth (Cfg b)")
    case False
    then show ?thesis by (simp add: ProcessLoop.simps)
  next
    case True
    from step_returns [OF "1.prems", of r] obtain si sr e r1 where
      st: "step b stepItems r = Returns ((si, sr, e), r1)"
      by (metis prod_cases3 surj_pair)
    show ?thesis
    proof (cases e)
      case (Some err)
      then show ?thesis using True st by (simp add: ProcessLoop.simps)
    next
      case None
      from "1.IH" [OF True st refl refl _ refl] None "1.prems"
      obtain res where
        "ProcessLoop b stepItems (d + 1) (items @ si) (referrers @ sr) r1 = Returns res"
        by blast
      then show ?thesis using True st None by (simp add: ProcessLoop.simps)
    qed
  qed
qed

lemma queryTables_panics:
  "\<exists>q \<in> set query. \<not> (0 \<le> Item q \<and> Item q < int (length (ItemWeights b))) \<Longrightarrow>
   queryTables b query = Panics IndexOutOfRange"
proof (induction query)
  case Nil
  then show ?case by simp
next
  case (Cons q query)
  show ?case
  proof (cases "0 \<le> Item q \<and> Item q < int (length (ItemWeights b))")
    case True
    then have "queryTables b query = Panics IndexOutOfRange" using Cons by auto
    then show ?thesis by (simp split: option.splits)
  next
    case False
    then have "elem (ItemWeights b) (Item q) = None" by (simp add: elem_None_iff)
    then show ?thesis by simp
  qed
qed

lemma sampleItemsFromQuery_returns:
  assumes "wellFormed b"
    and "\<forall>q \<in> set query. 0 \<le> Item q \<and> Item q < int (length (ItemWeights b))"
  shows "\<exists>res. sampleItemsFromQuery b query r = Returns res"
proof -
  from queryTables_total [OF assms(2)] obtain ws where
    qt: "queryTables b query = Returns (ws, map Item query)" by blast
  have lws: "length ws = length query" using queryTables_Returns [OF qt] by simp
  show ?thesis
  proof (cases "NewAliasSampler ws")
    case (Inl e)
    then show ?thesis using qt by (simp add: sampleItemsFromQuery_def)
  next
    case (Inr s)
    let ?n = "nat (Draws (Cfg b))"
    let ?iids = "fst (Sample s ?n r)"
    have d: "\<not> Draws (Cfg b) < 0" using assms(1) by (simp add: wellFormed_def)
    have sw: "samplerWeights s = ws" "0 < length ws"
      using NewAliasSampler_Inr [OF Inr] by simp_all
    have "iid < length (map Item query) \<and>
          elem (ItemsToUsers b) (map Item query ! iid) \<noteq> None"
      if "iid \<in> set ?iids" for iid
    proof -
      have lt: "iid < length query" using Sample_range [OF _ that] sw lws by simp
      then have "query ! iid \<in> set query" by simp
      with assms(2) have "0 \<le> Item (query ! iid) \<and>
          Item (query ! iid) < int (length (ItemWeights b))" by blast
      then have "elem (ItemsToUsers b) (Item (query ! iid)) \<noteq> None"
        using assms(1) by (simp add: elem_def wellFormed_def)
      then show ?thesis using lt by simp
    qed
    then have "\<forall>iid \<in> set ?iids. iid < length (map Item query) \<and>
          elem (ItemsToUsers b) (map Item query ! iid) \<noteq> None" by blast
    moreover have "0 + length ?iids \<le> length (replicate ?n (0 :: int))"
      by (simp add: Sample_length)
    ultimately obtain out where
      "fillSampled b (map Item query) 0 ?iids (replicate ?n 0) = Returns out"
      using fillSampled_total by blast
    then show ?thesis using qt Inr d
      by (simp add: sampleItemsFromQuery_def case_prod_beta)
  qed
qed

text \<open>
  Claim C10. \<open>Process\<close> checks no index of the query. For a walker that \<open>NewBird\<close>
  returned and a query whose items all lie in \<open>[0, len(ItemWeights))\<close>, every index that
  \<open>Process\<close> computes is in range: it returns (a result or an error) and does not panic,
  whatever the generator yields. For a query with an item outside that range, for
  instance one equal to \<open>len(ItemWeights)\<close>, it panics with an index out of range instead
  of returning an error.
\<close>

theorem Process_index_safety:
  assumes "NewBird newRand now cfg itemWeights usersToItems = Returns (Inr (b, r0))"
  shows "((\<forall>q \<in> set query. 0 \<le> Item q \<and> Item q < int (length (ItemWeights b))) \<longrightarrow>
            (\<exists>res. Process b query r = Returns res)) \<and>
         ((\<exists>q \<in> set query. \<not> (0 \<le> Item q \<and> Item q < int (length (ItemWeights b)))) \<longrightarrow>
            Process b query r = Panics IndexOutOfRange) \<and>
         Process b [\<lparr>Item = int (length (ItemWeights b)), Weight = w\<rparr>] r =
           Panics IndexOutOfRange"
proof (intro conjI impI)
  have wf: "wellFormed b" using assms by (rule NewBird_wellFormed)
  assume rng: "\<forall>q \<in> set query. 0 \<le> Item q \<and> Item q < int (length (ItemWeights b))"
  show "\<exists>res. Process b query r = Returns res"
  proof (cases "length query = 0")
    case True
    then show ?thesis by (simp add: Process_def)
  next
    case False
    from sampleItemsFromQuery_returns [OF wf rng, of r] obtain res r1 where
      sq: "sampleItemsFromQuery b query r = Returns (res, r1)" by fastforce
    show ?thesis
    proof (cases res)
      case (Inl e)
      then show ?thesis using False sq by (simp add: Process_def)
    next
      case (Inr seeds)
      with sq have "sampleItemsFromQuery b query r = Returns (Inr seeds, r1)" by simp
      then have "\<forall>it \<in> set seeds. elem (ItemsToUsers b) it \<noteq> None"
        using seeds_in_range by blast
      from ProcessLoop_returns [OF wf this, of 0 "[]" "[]" r1]
      show ?thesis using False sq Inr by (simp add: Process_def)
    qed
  qed
next
  assume out: "\<exists>q \<in> set query. \<not> (0 \<le> Item q \<and> Item q < int (length (ItemWeights b)))"
  then have "query \<noteq> []" by auto
  then show "Process b query r = Panics IndexOutOfRange"
    using queryTables_panics [OF out]
    by (simp add: Process_def sampleItemsFromQuery_def)
next
  show "Process b [\<lparr>Item = int (length (ItemWeights b)), Weight = w\<rparr>] r =
           Panics IndexOutOfRange"
    by (simp add: Process_def sampleItemsFromQuery_def elem_def)
qed

theorem Process_index_safety_witness:
  "Process \<lparr>Cfg = \<lparr>Depth = 2, Draws = 2\<rparr>, ItemWeights = [1, 1, 1],
            UsersToItems = [[0, 1], [0, 2]], ItemsToUsers = [[0, 1], [0], [1]],
            UserItemsSamplers = [AliasSampler [1, 1], AliasSampler [1, 1]]\<rparr>
     [\<lparr>Item = 0, Weight = 1\<rparr>, \<lparr>Item = 2, Weight = 1\<rparr>] (tapeOf [1, 0, 1, 0, 1, 1]) =
     Returns (([2, 1, 0, 0], [1, 0, 1, 0], None), tapeOf []) \<and>
   Process \<lparr>Cfg = \<lparr>Depth = 2, Draws = 2\<rparr>, ItemWeights = [1, 1, 1],
            UsersToItems = [[0, 1], [0, 2]], ItemsToUsers = [[0, 1], [0], [1]],
            UserItemsSamplers = [AliasSampler [1, 1], AliasSampler [1, 1]]\<rparr>
     [\<lparr>Item = 0, Weight = 1\<rparr>, \<lparr>Item = 3, Weight = 1\<rparr>] (tapeOf [1, 0, 1, 0, 1, 1]) =
     Panics IndexOutOfRange"
proof -
  let ?b = "\<lparr>Cfg = \<lparr>Depth = 2, Draws = 2\<rparr>, ItemWeights = [1, 1, 1],
            UsersToItems = [[0, 1], [0, 2]], ItemsToUsers = [[0, 1], [0], [1]],
            UserItemsSamplers = [AliasSampler [1, 1], AliasSampler [1, 1]]\<rparr>"
  let ?t = "tapeOf [1, 0, 1, 0, 1, 1]"
  have new: "NewBird (\<lambda>seed. ?t) 0 \<lparr>Depth = 2, Draws = 2\<rparr> [1, 1, 1] [[0, 1], [0, 2]] =
      Returns (Inr (?b, ?t))"
    by (simp add: run_defs)
  have good: "\<forall>q \<in> set [\<lparr>Item = 0, Weight = 1\<rparr>, \<lparr>Item = 2, Weight = 1 :: real\<rparr>].
      0 \<le> Item q \<and> Item q < int (length (ItemWeights ?b))"
    by simp
  have bad: "\<exists>q \<in> set [\<lparr>Item = 0, Weight = 1\<rparr>, \<lparr>Item = 3, Weight = 1 :: real\<rparr>].
      \<not> (0 \<le> Item q \<and> Item q < int (length (ItemWeights ?b)))"
    by simp
  have run: "Process ?b [\<lparr>Item = 0, Weight = 1\<rparr>, \<lparr>Item = 2, Weight = 1\<rparr>] ?t =
     Returns (([2, 1, 0, 0], [1, 0, 1, 0], None), tapeOf [])"
    by (simp add: run_defs)
  have panic: "Process ?b [\<lparr>Item = 0, Weight = 1\<rparr>, \<lparr>Item = 3, Weight = 1\<rparr>] ?t =
     Panics IndexOutOfRange"
    using Process_index_safety [OF new, of "[\<lparr>Item = 0, Weight = 1\<rparr>, \<lparr>Item = 3, Weight = 1\<rparr>]" ?t]
      bad by blast
  show ?thesis using run panic by simp
qed

end
